theory Spec2Isabelle
  imports Main "HOL-Library.AList" "HOL-Library.Multiset"
begin

section \<open>Data model of \<^verbatim>\<open>backend/main.py\<close>\<close>

text \<open>
  The SQLAlchemy models, restricted to the columns that the algorithms read or write.
  The primary key \<^verbatim>\<open>id\<close> of a task is \<open>t_id\<close>, that of a resource \<open>r_id\<close>.  Times are
  Python \<^verbatim>\<open>datetime\<close> values, counted in microseconds since \<^verbatim>\<open>datetime.min\<close>.
\<close>

datatype ResourceType = EMPLOYEE | EQUIPMENT

record Task =
  t_id :: int
  t_project_id :: int
  estimated_duration :: int
  priority :: int
  required_skills :: "string list"

record TaskDependency =
  predecessor_task_id :: int
  successor_task_id :: int

record Resource =
  r_id :: int
  r_type :: ResourceType
  skills :: "string list"
  available :: bool

record TaskAllocation =
  task_id :: int
  resource_id :: int
  scheduled_start :: int
  scheduled_end :: int

text \<open>The exceptions that the modelled code can raise.\<close>

datatype error = HTTPException int string | KeyError | IndexError | OverflowError | RecursionError

text \<open>
  The database: one list of rows per table, in the order in which a query without
  \<^verbatim>\<open>ORDER BY\<close> returns them; of a project only its \<^verbatim>\<open>id\<close> is kept.  A session holds the committed tables and the objects
  that \<^verbatim>\<open>db.add\<close> has registered but that are not flushed yet.  The session factory is
  created with \<^verbatim>\<open>autoflush=False\<close>, so a query reads the committed tables only.
\<close>

record database =
  projects_table :: "int list"
  tasks_table :: "Task list"
  task_dependencies_table :: "TaskDependency list"
  resources_table :: "Resource list"
  task_allocations_table :: "TaskAllocation list"

record session =
  store :: database
  new_dependencies :: "TaskDependency list"
  new_allocations :: "TaskAllocation list"

definition db_add_dependency :: "TaskDependency \<Rightarrow> session \<Rightarrow> session" where
  "db_add_dependency d db = db\<lparr>new_dependencies := new_dependencies db @ [d]\<rparr>"

definition db_add_allocation :: "TaskAllocation \<Rightarrow> session \<Rightarrow> session" where
  "db_add_allocation a db = db\<lparr>new_allocations := new_allocations db @ [a]\<rparr>"

definition db_commit :: "session \<Rightarrow> session" where
  "db_commit db =
     \<lparr>store = (store db)\<lparr>task_dependencies_table := task_dependencies_table (store db) @ new_dependencies db,
                          task_allocations_table := task_allocations_table (store db) @ new_allocations db\<rparr>,
      new_dependencies = [], new_allocations = []\<rparr>"

definition db_rollback :: "session \<Rightarrow> session" where
  "db_rollback db = db\<lparr>new_dependencies := [], new_allocations := []\<rparr>"

text \<open>\<^verbatim>\<open>db.query(Task).filter(Task.project_id == project_id).all()\<close>\<close>

definition query_tasks :: "session \<Rightarrow> int \<Rightarrow> Task list" where
  "query_tasks db project_id = filter (\<lambda>t. t_project_id t = project_id) (tasks_table (store db))"

text \<open>
  \<^verbatim>\<open>db.query(TaskDependency).join(Task, TaskDependency.predecessor_task_id == Task.id)
     .filter(Task.project_id == project_id).all()\<close>
\<close>

definition query_dependencies :: "session \<Rightarrow> int \<Rightarrow> TaskDependency list" where
  "query_dependencies db project_id =
     filter (\<lambda>d. list_ex (\<lambda>t. t_id t = predecessor_task_id d \<and> t_project_id t = project_id)
                          (tasks_table (store db)))
            (task_dependencies_table (store db))"

text \<open>\<^verbatim>\<open>db.query(Resource).filter(Resource.available == True).all()\<close>\<close>

definition query_available_resources :: "session \<Rightarrow> Resource list" where
  "query_available_resources db = filter available (resources_table (store db))"

subsection \<open>Python dictionaries\<close>

text \<open>
  A \<^verbatim>\<open>dict\<close> is an association list in insertion order: \<open>AList.update\<close> replaces
  the value of a key that is present and appends a new key at the end, as \<^verbatim>\<open>d[k] = v\<close>
  does; \<open>map_of\<close> is the lookup and a missing key raises \<^verbatim>\<open>KeyError\<close>.
\<close>

type_synonym ('k, 'v) dict = "('k \<times> 'v) list"

text \<open>The comprehension \<^verbatim>\<open>{task.id: f(task) for task in tasks}\<close>.\<close>

definition dict_of_tasks :: "(Task \<Rightarrow> 'v) \<Rightarrow> Task list \<Rightarrow> (int, 'v) dict" where
  "dict_of_tasks f ts = fold (\<lambda>t d. AList.update (t_id t) (f t) d) ts []"

section \<open>Topological sort (Kahn's algorithm)\<close>

text \<open>
  The loop \<^verbatim>\<open>for dep in dependencies\<close> of \<^verbatim>\<open>topological_sort\<close>: it appends the
  successor to the predecessor's adjacency list and counts the successor's in-degree.
\<close>

fun build_graph_in_degree ::
  "TaskDependency list \<Rightarrow> (int, int list) dict \<times> (int, int) dict
     \<Rightarrow> error + ((int, int list) dict \<times> (int, int) dict)" where
  "build_graph_in_degree [] (graph, in_degree) = Inr (graph, in_degree)"
| "build_graph_in_degree (dep # deps) (graph, in_degree) =
     (case map_of graph (predecessor_task_id dep) of
        None \<Rightarrow> Inl KeyError
      | Some succs \<Rightarrow>
          (case map_of in_degree (successor_task_id dep) of
             None \<Rightarrow> Inl KeyError
           | Some n \<Rightarrow>
               build_graph_in_degree deps
                 (AList.update (predecessor_task_id dep) (succs @ [successor_task_id dep]) graph,
                  AList.update (successor_task_id dep) (n + 1) in_degree)))"

text \<open>\<^verbatim>\<open>queue.sort(key=lambda tid: -task_map[tid].priority)\<close>: a stable sort.\<close>

definition sort_queue :: "(int, Task) dict \<Rightarrow> int list \<Rightarrow> error + int list" where
  "sort_queue task_map queue =
     (if list_all (\<lambda>tid. map_of task_map tid \<noteq> None) queue
      then Inr (sort_key (\<lambda>tid. case map_of task_map tid of Some t \<Rightarrow> - priority t | None \<Rightarrow> 0)
                         queue)
      else Inl KeyError)"

text \<open>The loop \<^verbatim>\<open>for neighbor in graph[current]\<close>.\<close>

fun relax :: "int list \<Rightarrow> (int, int) dict \<times> int list \<Rightarrow> error + ((int, int) dict \<times> int list)" where
  "relax [] (in_degree, queue) = Inr (in_degree, queue)"
| "relax (neighbor # ns) (in_degree, queue) =
     (case map_of in_degree neighbor of
        None \<Rightarrow> Inl KeyError
      | Some k \<Rightarrow>
          relax ns (AList.update neighbor (k - 1) in_degree,
                    if k - 1 = 0 then queue @ [neighbor] else queue))"

text \<open>The number of keys whose stored in-degree is positive: part of the loop's variant.\<close>

definition positive_entries :: "(int, int) dict \<Rightarrow> nat" where
  "positive_entries in_degree = length (filter (\<lambda>kv. 1 \<le> snd kv) in_degree)"

lemma positive_entries_update:
  "map_of d n = Some k \<Longrightarrow>
   positive_entries (AList.update n v d) + (if 1 \<le> k then 1 else 0)
     = positive_entries d + (if 1 \<le> v then 1 else 0)"
  by (induction d) (auto simp: positive_entries_def)

lemma relax_variant:
  "relax ns (ind, q) = Inr (ind', q') \<Longrightarrow>
   length q' + positive_entries ind' \<le> length q + positive_entries ind"
proof (induction ns arbitrary: ind q)
  case Nil
  then show ?case by simp
next
  case (Cons n ns)
  from Cons.prems obtain k where k: "map_of ind n = Some k"
    by (auto split: option.splits)
  let ?ind = "AList.update n (k - 1) ind"
  let ?q = "if k - 1 = 0 then q @ [n] else q"
  from Cons.prems k have "relax ns (?ind, ?q) = Inr (ind', q')" by simp
  then have "length q' + positive_entries ind' \<le> length ?q + positive_entries ?ind"
    by (rule Cons.IH)
  moreover have "length ?q + positive_entries ?ind \<le> length q + positive_entries ind"
    using positive_entries_update [OF k, of "k - 1"] by (auto split: if_splits)
  ultimately show ?case by linarith
qed

lemma sort_queue_length: "sort_queue tm q = Inr sq \<Longrightarrow> length sq = length q"
  by (auto simp: sort_queue_def split: if_splits)

text \<open>
  One iteration of the loop \<^verbatim>\<open>while queue\<close>: sort, \<^verbatim>\<open>queue.pop(0)\<close>, append the
  task to \<^verbatim>\<open>sorted_tasks\<close>, release its successors.  The state is the in-degree
  dictionary, the queue and the tasks sorted so far.
\<close>

definition kahn_step ::
  "(int, int list) dict \<Rightarrow> (int, Task) dict \<Rightarrow> (int, int) dict \<times> int list \<times> Task list
     \<Rightarrow> error + ((int, int) dict \<times> int list \<times> Task list)" where
  "kahn_step graph task_map s =
     (case s of (in_degree, queue, sorted_tasks) \<Rightarrow>
        (case sort_queue task_map queue of
           Inl e \<Rightarrow> Inl e
         | Inr sq \<Rightarrow>
            (case sq of
               [] \<Rightarrow> Inl IndexError
             | current # rest \<Rightarrow>
                (case map_of task_map current of
                   None \<Rightarrow> Inl KeyError
                 | Some t \<Rightarrow>
                    (case map_of graph current of
                       None \<Rightarrow> Inl KeyError
                     | Some ns \<Rightarrow>
                        (case relax ns (in_degree, rest) of
                           Inl e \<Rightarrow> Inl e
                         | Inr (in_degree', queue') \<Rightarrow>
                             Inr (in_degree', queue', sorted_tasks @ [t])))))))"

lemma kahn_step_variant:
  assumes "kahn_step g tm (ind, q, out) = Inr (ind', q', out')" and "q \<noteq> []"
  shows "length q' + positive_entries ind' < length q + positive_entries ind"
proof -
  from assms(1) obtain sq where sq: "sort_queue tm q = Inr sq"
    by (cases "sort_queue tm q") (auto simp: kahn_step_def)
  with assms obtain current rest where cr: "sq = current # rest"
    using sort_queue_length [OF sq] by (cases sq) auto
  from assms(1) sq cr obtain ns where "relax ns (ind, rest) = Inr (ind', q')"
    by (auto simp: kahn_step_def split: option.splits sum.splits)
  from relax_variant [OF this] sort_queue_length [OF sq] cr show ?thesis by simp
qed

text \<open>The loop \<^verbatim>\<open>while queue\<close>.\<close>

function kahn_loop ::
  "(int, int list) dict \<Rightarrow> (int, Task) dict \<Rightarrow> (int, int) dict \<times> int list \<times> Task list
     \<Rightarrow> error + Task list" where
  "kahn_loop graph task_map (in_degree, queue, sorted_tasks) =
     (if queue = [] then Inr sorted_tasks
      else case kahn_step graph task_map (in_degree, queue, sorted_tasks) of
             Inl e \<Rightarrow> Inl e
           | Inr s \<Rightarrow> kahn_loop graph task_map s)"
  by pat_completeness auto
termination
proof (relation "measure (\<lambda>(g, tm, ind, q, out). length q + positive_entries ind)", goal_cases)
  case 1
  show ?case by simp
next
  case (2 graph task_map in_degree queue sorted_tasks s)
  then show ?case using kahn_step_variant by (cases s) auto
qed

declare kahn_loop.simps [simp del]

definition topological_sort :: "session \<Rightarrow> int \<Rightarrow> error + Task list" where
  "topological_sort db project_id =
     (let tasks = query_tasks db project_id;
          dependencies = query_dependencies db project_id;
          graph = dict_of_tasks (\<lambda>t. []) tasks;
          in_degree = dict_of_tasks (\<lambda>t. 0) tasks;
          task_map = dict_of_tasks (\<lambda>t. t) tasks
      in case build_graph_in_degree dependencies (graph, in_degree) of
           Inl e \<Rightarrow> Inl e
         | Inr (graph, in_degree) \<Rightarrow>
             kahn_loop graph task_map
               (in_degree, filter (\<lambda>tid. map_of in_degree tid = Some 0) (map fst in_degree), []))"

section \<open>Cycle detection\<close>

text \<open>
  The loop \<^verbatim>\<open>for dep in dependencies\<close> of \<^verbatim>\<open>has_cycle\<close>, then \<^verbatim>\<open>graph.get(node, [])\<close>,
  the nested function \<^verbatim>\<open>dfs\<close> and its loop \<^verbatim>\<open>for neighbor in graph.get(node, [])\<close>.
  The sets \<^verbatim>\<open>visited\<close> and \<^verbatim>\<open>rec_stack\<close> are the state that the calls share;
  \<^verbatim>\<open>rec_stack.remove(node)\<close> raises \<^verbatim>\<open>KeyError\<close> when the node is absent.
\<close>

fun build_graph :: "TaskDependency list \<Rightarrow> (int, int list) dict \<Rightarrow> error + (int, int list) dict" where
  "build_graph [] graph = Inr graph"
| "build_graph (dep # deps) graph =
     (case map_of graph (predecessor_task_id dep) of
        None \<Rightarrow> Inl KeyError
      | Some succs \<Rightarrow>
          build_graph deps
            (AList.update (predecessor_task_id dep) (succs @ [successor_task_id dep]) graph))"

definition graph_get :: "(int, int list) dict \<Rightarrow> int \<Rightarrow> int list" where
  "graph_get graph node = (case map_of graph node of None \<Rightarrow> [] | Some ns \<Rightarrow> ns)"

text \<open>
  \<^verbatim>\<open>dfs\<close> is recursive, and the interpreter bounds the depth of the call stack: a call
  beyond the recursion limit raises \<^verbatim>\<open>RecursionError\<close>.  The parameter \<open>frames\<close> is the
  number of nested calls of \<^verbatim>\<open>dfs\<close> that the interpreter still allows at the call: the
  recursion limit (1000 unless it was changed) less the depth of the stack there.  A
  call with no frame left raises the error; the calls made from the loop of a call
  have one frame less.
\<close>

function dfs ::
  "nat \<Rightarrow> (int, int list) dict \<Rightarrow> int \<Rightarrow> int set \<times> int set \<Rightarrow> error + (bool \<times> int set \<times> int set)"
  and dfs_neighbors ::
  "nat \<Rightarrow> (int, int list) dict \<Rightarrow> int list \<Rightarrow> int set \<times> int set \<Rightarrow> error + (bool \<times> int set \<times> int set)"
  where
  "dfs frames graph node (visited, rec_stack) =
     (if frames = 0 then Inl RecursionError
      else
        (case dfs_neighbors (frames - 1) graph (graph_get graph node)
                (insert node visited, insert node rec_stack) of
           Inl e \<Rightarrow> Inl e
         | Inr (True, st) \<Rightarrow> Inr (True, st)
         | Inr (False, visited', rec_stack') \<Rightarrow>
             (if node \<in> rec_stack' then Inr (False, visited', rec_stack' - {node})
              else Inl KeyError)))"
| "dfs_neighbors frames graph [] st = Inr (False, st)"
| "dfs_neighbors frames graph (neighbor # ns) (visited, rec_stack) =
     (if neighbor \<notin> visited then
        (case dfs frames graph neighbor (visited, rec_stack) of
           Inl e \<Rightarrow> Inl e
         | Inr (True, st) \<Rightarrow> Inr (True, st)
         | Inr (False, st') \<Rightarrow> dfs_neighbors frames graph ns st')
      else if neighbor \<in> rec_stack then Inr (True, visited, rec_stack)
      else dfs_neighbors frames graph ns (visited, rec_stack))"
  by pat_completeness auto

termination dfs
  by (relation "inv_image (less_than <*lex*> less_than)
        (\<lambda>x. case x of
           Inl (frames, g, n, st) \<Rightarrow> (frames, 0)
         | Inr (frames, g, ns, st) \<Rightarrow> (frames, Suc (length ns)))")
     auto

declare dfs.simps [simp del] dfs_neighbors.simps [simp del]

text \<open>
  The loop \<^verbatim>\<open>for task_id in graph\<close> at the end of \<^verbatim>\<open>has_cycle\<close>, and \<^verbatim>\<open>has_cycle\<close>
  itself; \<open>frames\<close> is the number of nested calls that the interpreter allows where
  \<^verbatim>\<open>has_cycle\<close> calls \<^verbatim>\<open>dfs\<close>.
\<close>

fun dfs_all :: "nat \<Rightarrow> (int, int list) dict \<Rightarrow> int list \<Rightarrow> int set \<times> int set \<Rightarrow> error + bool" where
  "dfs_all frames graph [] st = Inr False"
| "dfs_all frames graph (tid # rest) (visited, rec_stack) =
     (if tid \<notin> visited then
        (case dfs frames graph tid (visited, rec_stack) of
           Inl e \<Rightarrow> Inl e
         | Inr (True, st) \<Rightarrow> Inr True
         | Inr (False, st') \<Rightarrow> dfs_all frames graph rest st')
      else dfs_all frames graph rest (visited, rec_stack))"

definition has_cycle :: "nat \<Rightarrow> session \<Rightarrow> int \<Rightarrow> error + bool" where
  "has_cycle frames db project_id =
     (let tasks = query_tasks db project_id;
          dependencies = query_dependencies db project_id
      in case build_graph dependencies (dict_of_tasks (\<lambda>t. []) tasks) of
           Inl e \<Rightarrow> Inl e
         | Inr graph \<Rightarrow> dfs_all frames graph (map fst graph) ({}, {}))"

section \<open>Resource allocation\<close>

text \<open>
  \<^verbatim>\<open>timedelta(minutes=m)\<close> in microseconds; the constructor raises \<^verbatim>\<open>OverflowError\<close>
  when the normalised number of days leaves \<open>\<plusminus>999999999\<close>.
\<close>

definition timedelta_minutes :: "int \<Rightarrow> error + int" where
  "timedelta_minutes m =
     (if - 999999999 \<le> m div 1440 \<and> m div 1440 \<le> 999999999 then Inr (m * 60000000)
      else Inl OverflowError)"

text \<open>
  \<^verbatim>\<open>datetime + timedelta\<close>: the result must lie between \<^verbatim>\<open>datetime.min\<close> and
  \<^verbatim>\<open>datetime.max\<close> (proleptic ordinal days 1 to 3652059), else \<^verbatim>\<open>OverflowError\<close>.
\<close>

definition datetime_add :: "int \<Rightarrow> int \<Rightarrow> error + int" where
  "datetime_add t delta =
     (if 0 \<le> t + delta \<and> t + delta < 3652059 * 86400000000 then Inr (t + delta)
      else Inl OverflowError)"

text \<open>\<^verbatim>\<open>all(skill in resource.skills for skill in task.required_skills)\<close>\<close>

definition skill_match :: "Resource \<Rightarrow> Task \<Rightarrow> bool" where
  "skill_match resource task = list_all (\<lambda>skill. skill \<in> set (skills resource)) (required_skills task)"

text \<open>The loop \<^verbatim>\<open>for resource in resources\<close> with its \<^verbatim>\<open>break\<close>.\<close>

fun find_best_resource :: "Resource list \<Rightarrow> Task \<Rightarrow> Resource option" where
  "find_best_resource [] task = None"
| "find_best_resource (resource # rs) task =
     (if r_type resource = EMPLOYEE \<and> skill_match resource task then Some resource
      else find_best_resource rs task)"

text \<open>\<^verbatim>\<open>if not best_resource: best_resource = resources[0]\<close>\<close>

definition choose_resource :: "Resource list \<Rightarrow> Task \<Rightarrow> error + Resource" where
  "choose_resource resources task =
     (case find_best_resource resources task of
        Some best_resource \<Rightarrow> Inr best_resource
      | None \<Rightarrow> (case resources of [] \<Rightarrow> Inl IndexError | r # _ \<Rightarrow> Inr r))"

text \<open>
  The loop \<^verbatim>\<open>for task in sorted_tasks\<close>; its state is the clock, the list of
  allocations built so far and the session.
\<close>

fun allocate_loop ::
  "Resource list \<Rightarrow> Task list \<Rightarrow> int \<times> TaskAllocation list \<times> session
     \<Rightarrow> (error + TaskAllocation list) \<times> session" where
  "allocate_loop resources [] (current_time, allocations, db) = (Inr allocations, db)"
| "allocate_loop resources (task # rest) (current_time, allocations, db) =
     (case choose_resource resources task of
        Inl e \<Rightarrow> (Inl e, db)
      | Inr best_resource \<Rightarrow>
         (case timedelta_minutes (estimated_duration task) of
            Inl e \<Rightarrow> (Inl e, db)
          | Inr delta \<Rightarrow>
             (case datetime_add current_time delta of
                Inl e \<Rightarrow> (Inl e, db)
              | Inr end_time \<Rightarrow>
                 (let allocation = \<lparr>task_id = t_id task, resource_id = r_id best_resource,
                                     scheduled_start = current_time, scheduled_end = end_time\<rparr>
                  in allocate_loop resources rest
                       (end_time, allocations @ [allocation], db_add_allocation allocation db)))))"

text \<open>
  \<^verbatim>\<open>allocate_resources\<close>; \<open>now\<close> is the value that \<^verbatim>\<open>datetime.utcnow()\<close> returns.
  The result carries the session as the call leaves it.
\<close>

definition allocate_resources ::
  "int \<Rightarrow> session \<Rightarrow> int \<Rightarrow> (error + TaskAllocation list) \<times> session" where
  "allocate_resources now db project_id =
     (case topological_sort db project_id of
        Inl e \<Rightarrow> (Inl e, db)
      | Inr sorted_tasks \<Rightarrow>
         (let resources = query_available_resources db
          in if resources = [] then (Inl (HTTPException 400 ''No available resources''), db)
             else (case allocate_loop resources sorted_tasks (now, [], db) of
                     (Inl e, db') \<Rightarrow> (Inl e, db')
                   | (Inr allocations, db') \<Rightarrow> (Inr allocations, db_commit db'))))"

section \<open>Endpoints\<close>

text \<open>
  \<^verbatim>\<open>create_dependency\<close>, for an authenticated caller.  The first \<^verbatim>\<open>db.commit()\<close>
  flushes and commits the new row before the cycle check runs.  As in \<^verbatim>\<open>has_cycle\<close>,
  \<open>frames\<close> is the number of nested calls that the interpreter allows there; an
  exception that is no \<^verbatim>\<open>HTTPException\<close> leaves the endpoint as it was raised.
\<close>

definition create_dependency :: "nat \<Rightarrow> TaskDependency \<Rightarrow> session \<Rightarrow> (error + unit) \<times> session" where
  "create_dependency frames dependency db =
     (case (find (\<lambda>t. t_id t = predecessor_task_id dependency) (tasks_table (store db)),
            find (\<lambda>t. t_id t = successor_task_id dependency) (tasks_table (store db))) of
        (Some pred_task, Some succ_task) \<Rightarrow>
          (if t_project_id pred_task \<noteq> t_project_id succ_task
           then (Inl (HTTPException 400 ''Tasks must be in the same project''), db)
           else
             (let new_dep = \<lparr>predecessor_task_id = predecessor_task_id dependency,
                             successor_task_id = successor_task_id dependency\<rparr>;
                  db = db_commit (db_add_dependency new_dep db)
              in case has_cycle frames db (t_project_id pred_task) of
                   Inl e \<Rightarrow> (Inl e, db)
                 | Inr True \<Rightarrow>
                     (Inl (HTTPException 400 ''This dependency creates a cycle''), db_rollback db)
                 | Inr False \<Rightarrow> (Inr (), db_commit db)))
      | _ \<Rightarrow> (Inl (HTTPException 404 ''One or both tasks not found''), db))"


section \<open>Example data\<close>

definition ex_task1 :: Task where
  "ex_task1 = \<lparr>t_id = 1, t_project_id = 1, estimated_duration = 240, priority = 5,
                required_skills = [''python'']\<rparr>"

definition ex_task2 :: Task where
  "ex_task2 = \<lparr>t_id = 2, t_project_id = 1, estimated_duration = 480, priority = 4,
                required_skills = []\<rparr>"

definition ex_task3 :: Task where
  "ex_task3 = \<lparr>t_id = 3, t_project_id = 1, estimated_duration = 60, priority = 3,
                required_skills = []\<rparr>"

definition ex_employee :: Resource where
  "ex_employee = \<lparr>r_id = 1, r_type = EMPLOYEE, skills = [''python''], available = True\<rparr>"

definition ex_unskilled :: Resource where
  "ex_unskilled = \<lparr>r_id = 1, r_type = EMPLOYEE, skills = [], available = True\<rparr>"

definition ex_equipment :: Resource where
  "ex_equipment = \<lparr>r_id = 2, r_type = EQUIPMENT, skills = [''python''], available = True\<rparr>"

definition ex_edge12 :: TaskDependency where
  "ex_edge12 = \<lparr>predecessor_task_id = 1, successor_task_id = 2\<rparr>"

definition ex_edge21 :: TaskDependency where
  "ex_edge21 = \<lparr>predecessor_task_id = 2, successor_task_id = 1\<rparr>"

definition ex_session :: "Task list \<Rightarrow> TaskDependency list \<Rightarrow> Resource list \<Rightarrow> session" where
  "ex_session ts ds rs =
     \<lparr>store = \<lparr>projects_table = [1], tasks_table = ts, task_dependencies_table = ds,
                resources_table = rs, task_allocations_table = []\<rparr>,
      new_dependencies = [], new_allocations = []\<rparr>"

definition ex_db :: session where
  "ex_db = ex_session [ex_task1, ex_task2] [ex_edge12] [ex_employee]"

definition ex_db_cyclic :: session where
  "ex_db_cyclic = ex_session [ex_task1, ex_task2, ex_task3] [ex_edge12, ex_edge21] [ex_employee]"

definition ex_db_equipment :: session where
  "ex_db_equipment = ex_session [ex_task1] [] [ex_unskilled, ex_equipment]"

definition ex_db_no_resources :: session where
  "ex_db_no_resources = ex_session [ex_task1, ex_task2] [ex_edge12] []"

definition ex_allocations :: "TaskAllocation list" where
  "ex_allocations =
     [\<lparr>task_id = 1, resource_id = 1, scheduled_start = 1000, scheduled_end = 14400001000\<rparr>,
      \<lparr>task_id = 2, resource_id = 1, scheduled_start = 14400001000,
       scheduled_end = 43200001000\<rparr>]"

definition ex_db_ready :: session where
  "ex_db_ready = ex_session [ex_task3, ex_task1] [] [ex_employee]"

definition ex_db_cyclic_permuted :: session where
  "ex_db_cyclic_permuted = ex_session [ex_task3, ex_task2, ex_task1] [ex_edge21, ex_edge12] []"





section \<open>Specification predicates\<close>

text \<open>
  What one run of the allocation loop builds from the clock value \<open>ct\<close>: one allocation
  per task, in order, each starting where the previous one ends.
\<close>

fun allocated :: "Resource list \<Rightarrow> int \<Rightarrow> Task list \<Rightarrow> TaskAllocation list \<Rightarrow> bool" where
  "allocated rs ct [] [] = True"
| "allocated rs ct (t # ts) (a # as) =
     (task_id a = t_id t \<and> scheduled_start a = ct
      \<and> scheduled_end a = ct + estimated_duration t * 60000000
      \<and> (\<exists>r. choose_resource rs t = Inr r \<and> resource_id a = r_id r)
      \<and> allocated rs (scheduled_end a) ts as)"
| "allocated rs ct _ _ = False"

text \<open>
  The dependency rows of a project as a list of edges (predecessor, successor), the
  successors of a node in row order, and the number of edges that enter a node.
\<close>

definition edges_of :: "TaskDependency list \<Rightarrow> (int \<times> int) list" where
  "edges_of deps = map (\<lambda>d. (predecessor_task_id d, successor_task_id d)) deps"

definition successors_of :: "(int \<times> int) list \<Rightarrow> int \<Rightarrow> int list" where
  "successors_of E p = map snd (filter (\<lambda>e. fst e = p) E)"

definition in_degree_of :: "(int \<times> int) list \<Rightarrow> int \<Rightarrow> nat" where
  "in_degree_of E n = length (filter (\<lambda>e. snd e = n) E)"

text \<open>
  The edge relation of a project, as the cycle detector and the sort read it, and the
  well-formed project graphs: task ids are a primary key, and every dependency row
  that the join returns leads to a task of the same project (its predecessor is one by
  the join itself).
\<close>

definition project_edges :: "session \<Rightarrow> int \<Rightarrow> (int \<times> int) set" where
  "project_edges db project_id = set (edges_of (query_dependencies db project_id))"

definition project_graph_ok :: "session \<Rightarrow> int \<Rightarrow> bool" where
  "project_graph_ok db project_id \<longleftrightarrow>
     distinct (map t_id (query_tasks db project_id))
     \<and> (\<forall>d\<in>set (query_dependencies db project_id).
           successor_task_id d \<in> t_id ` set (query_tasks db project_id))"

text \<open>
  For Kahn's loop: the edges into \<open>n\<close> whose predecessor is not placed yet, and
  \<open>precedes p s xs\<close>, which says that \<open>p\<close> stands at a strictly smaller position of
  \<open>xs\<close> than \<open>s\<close>.
\<close>

definition remaining :: "(int \<times> int) list \<Rightarrow> int set \<Rightarrow> int \<Rightarrow> nat" where
  "remaining E placed n = length (filter (\<lambda>e. snd e = n \<and> fst e \<notin> placed) E)"

definition precedes :: "int \<Rightarrow> int \<Rightarrow> int list \<Rightarrow> bool" where
  "precedes p s xs \<longleftrightarrow> (\<exists>i j. i < j \<and> j < length xs \<and> xs ! i = p \<and> xs ! j = s)"

text \<open>
  What the dictionaries built before the loop hold, and the loop invariant: the queue
  is exactly the set of unplaced tasks without unplaced predecessor, the in-degree
  dictionary counts the unplaced predecessors, and the tasks placed so far respect
  every edge that ends in one of them.
\<close>

definition kahn_context ::
  "Task list \<Rightarrow> (int \<times> int) list \<Rightarrow> (int, int list) dict \<Rightarrow> (int, Task) dict \<Rightarrow> bool" where
  "kahn_context ts E g tm \<longleftrightarrow>
     distinct (map t_id ts)
     \<and> (\<forall>e\<in>set E. fst e \<in> t_id ` set ts \<and> snd e \<in> t_id ` set ts)
     \<and> (\<forall>t\<in>set ts. map_of g (t_id t) = Some (successors_of E (t_id t))
                     \<and> map_of tm (t_id t) = Some t)"

definition kahn_inv ::
  "Task list \<Rightarrow> (int \<times> int) list \<Rightarrow> (int, int) dict \<times> int list \<times> Task list \<Rightarrow> bool" where
  "kahn_inv ts E s \<longleftrightarrow>
     (case s of (ind, q, out) \<Rightarrow>
        distinct (map t_id out) \<and> distinct q \<and> set out \<subseteq> set ts
        \<and> set q = {n \<in> t_id ` set ts. n \<notin> t_id ` set out \<and> remaining E (t_id ` set out) n = 0}
        \<and> (\<forall>n\<in>t_id ` set ts. map_of ind n = Some (int (remaining E (t_id ` set out) n)))
        \<and> (\<forall>e\<in>set E. snd e \<in> t_id ` set out \<longrightarrow> precedes (fst e) (snd e) (map t_id out)))"

text \<open>
  The dictionaries and the state with which \<^verbatim>\<open>topological_sort\<close> enters its loop, the
  states that the loop passes through from there, and the ready tasks of a state: not
  placed, every predecessor placed.
\<close>

definition kahn_start ::
  "session \<Rightarrow> int
     \<Rightarrow> error + ((int, int list) dict \<times> (int, Task) dict \<times> (int, int) dict \<times> int list \<times> Task list)" where
  "kahn_start db project_id =
     (let tasks = query_tasks db project_id
      in case build_graph_in_degree (query_dependencies db project_id)
                (dict_of_tasks (\<lambda>t. []) tasks, dict_of_tasks (\<lambda>t. 0) tasks) of
           Inl e \<Rightarrow> Inl e
         | Inr (graph, in_degree) \<Rightarrow>
             Inr (graph, dict_of_tasks (\<lambda>t. t) tasks, in_degree,
                  filter (\<lambda>tid. map_of in_degree tid = Some 0) (map fst in_degree), []))"

inductive kahn_reachable ::
  "(int, int list) dict \<Rightarrow> (int, Task) dict \<Rightarrow> (int, int) dict \<times> int list \<times> Task list
     \<Rightarrow> (int, int) dict \<times> int list \<times> Task list \<Rightarrow> bool"
  for graph task_map s0 where
  start: "kahn_reachable graph task_map s0 s0"
| step: "kahn_reachable graph task_map s0 s \<Longrightarrow> fst (snd s) \<noteq> [] \<Longrightarrow>
         kahn_step graph task_map s = Inr s' \<Longrightarrow> kahn_reachable graph task_map s0 s'"

definition ready_tasks :: "session \<Rightarrow> int \<Rightarrow> Task list \<Rightarrow> Task set" where
  "ready_tasks db project_id sorted_tasks =
     {t \<in> set (query_tasks db project_id). t \<notin> set sorted_tasks
        \<and> (\<forall>d\<in>set (query_dependencies db project_id).
              successor_task_id d = t_id t \<longrightarrow> predecessor_task_id d \<in> t_id ` set sorted_tasks)}"

text \<open>
  The edges that the adjacency dictionary holds, and the invariant of the depth-first
  search over the state (visited, rec_stack): the finished nodes (visited, not on the
  stack) are closed under the edges and lie on no cycle.
\<close>

definition graph_edges :: "(int, int list) dict \<Rightarrow> (int \<times> int) set" where
  "graph_edges g = {(u, w). w \<in> set (graph_get g u)}"

definition closed_under :: "(int \<times> int) set \<Rightarrow> int set \<Rightarrow> bool" where
  "closed_under E B \<longleftrightarrow> (\<forall>b\<in>B. \<forall>w. (b, w) \<in> E \<longrightarrow> w \<in> B)"

definition cycle_free :: "(int \<times> int) set \<Rightarrow> int set \<Rightarrow> bool" where
  "cycle_free E B \<longleftrightarrow> (\<forall>b\<in>B. (b, b) \<notin> E\<^sup>+)"

definition dfs_inv :: "(int, int list) dict \<Rightarrow> int set \<times> int set \<Rightarrow> bool" where
  "dfs_inv g st \<longleftrightarrow>
     snd st \<subseteq> fst st
     \<and> closed_under (graph_edges g) (fst st - snd st)
     \<and> cycle_free (graph_edges g) (fst st - snd st)"

definition dfs_pre :: "(int, int list) dict \<Rightarrow> int \<Rightarrow> int set \<times> int set \<Rightarrow> bool" where
  "dfs_pre g u st \<longleftrightarrow> dfs_inv g st \<and> (\<forall>x\<in>snd st. (x, u) \<in> (graph_edges g)\<^sup>*)"

definition dfs_post ::
  "(int, int list) dict \<Rightarrow> int set \<times> int set \<Rightarrow> int set
     \<Rightarrow> error + (bool \<times> int set \<times> int set) \<Rightarrow> bool" where
  "dfs_post g st finished res \<longleftrightarrow>
     (\<exists>found st'. res = Inr (found, st')
        \<and> (found \<longrightarrow> \<not> acyclic (graph_edges g))
        \<and> (\<not> found \<longrightarrow> fst st \<subseteq> fst st' \<and> snd st' = snd st \<and> dfs_inv g st'
                       \<and> finished \<subseteq> fst st' - snd st'))"

section \<open>The search without the recursion limit\<close>

text \<open>
  An auxiliary function for the proofs: the search of \<^verbatim>\<open>dfs\<close> with no bound on the
  depth of the calls.  It is total, because each call visits one more of the nodes that
  occur in the dictionary, as keys or as successors.  The theorems about \<^verbatim>\<open>has_cycle\<close>
  compare the search of the program with it.
\<close>

definition graph_nodes :: "(int, int list) dict \<Rightarrow> int set" where
  "graph_nodes graph = set (map fst graph) \<union> \<Union> (set (map (set \<circ> snd) graph))"

function unbounded_dfs :: "(int, int list) dict \<Rightarrow> int \<Rightarrow> int set \<times> int set \<Rightarrow> error + (bool \<times> int set \<times> int set)"
  and unbounded_dfs_neighbors :: "(int, int list) dict \<Rightarrow> int list \<Rightarrow> int set \<times> int set \<Rightarrow> error + (bool \<times> int set \<times> int set)"
  where
  "unbounded_dfs graph node (visited, rec_stack) =
     (case unbounded_dfs_neighbors graph (graph_get graph node) (insert node visited, insert node rec_stack) of
        Inl e \<Rightarrow> Inl e
      | Inr (True, st) \<Rightarrow> Inr (True, st)
      | Inr (False, visited', rec_stack') \<Rightarrow>
          (if node \<in> rec_stack' then Inr (False, visited', rec_stack' - {node})
           else Inl KeyError))"
| "unbounded_dfs_neighbors graph [] st = Inr (False, st)"
| "unbounded_dfs_neighbors graph (neighbor # ns) (visited, rec_stack) =
     (if neighbor \<notin> visited then
        (case unbounded_dfs graph neighbor (visited, rec_stack) of
           Inl e \<Rightarrow> Inl e
         | Inr (True, st) \<Rightarrow> Inr (True, st)
         | Inr (False, st') \<Rightarrow> unbounded_dfs_neighbors graph ns st')
      else if neighbor \<in> rec_stack then Inr (True, visited, rec_stack)
      else unbounded_dfs_neighbors graph ns (visited, rec_stack))"
  by pat_completeness auto

lemma unbounded_dfs_visited_mono:
  "unbounded_dfs_unbounded_dfs_neighbors_dom (Inl (graph, node, st)) \<Longrightarrow>
     unbounded_dfs graph node st = Inr (b, st') \<Longrightarrow> fst st \<subseteq> fst st'"
  "unbounded_dfs_unbounded_dfs_neighbors_dom (Inr (graph, ns, st)) \<Longrightarrow>
     unbounded_dfs_neighbors graph ns st = Inr (b, st') \<Longrightarrow> fst st \<subseteq> fst st'"
proof (induction graph node st and graph ns st arbitrary: b st' and b st'
       rule: unbounded_dfs_unbounded_dfs_neighbors.pinduct)
  case (1 graph node visited rec_stack)
  let ?r = "unbounded_dfs_neighbors graph (graph_get graph node) (insert node visited, insert node rec_stack)"
  from "1.prems" "1.hyps" obtain b1 v1 r1 where r: "?r = Inr (b1, v1, r1)"
    by (cases ?r) (auto simp: unbounded_dfs.psimps)
  from "1.IH" [OF r] have "insert node visited \<subseteq> v1" by simp
  moreover from "1.prems" "1.hyps" r have "fst st' = v1"
    by (cases b1) (auto simp: unbounded_dfs.psimps split: if_splits)
  ultimately show ?case by auto
next
  case (2 graph st)
  then show ?case by (simp add: unbounded_dfs_neighbors.psimps)
next
  case (3 graph neighbor ns visited rec_stack)
  show ?case
  proof (cases "neighbor \<notin> visited")
    case True
    let ?r = "unbounded_dfs graph neighbor (visited, rec_stack)"
    from "3.prems" "3.hyps" True obtain b1 st1 where r: "?r = Inr (b1, st1)"
      by (cases ?r) (auto simp: unbounded_dfs_neighbors.psimps)
    from "3.IH"(1) [OF True r] have m: "visited \<subseteq> fst st1" by simp
    show ?thesis
    proof (cases b1)
      case True
      with "3.prems" "3.hyps" r \<open>neighbor \<notin> visited\<close> have "st' = st1"
        by (simp add: unbounded_dfs_neighbors.psimps)
      with m show ?thesis by simp
    next
      case False
      with "3.prems" "3.hyps" r \<open>neighbor \<notin> visited\<close>
      have e: "unbounded_dfs_neighbors graph ns st1 = Inr (b, st')"
        by (simp add: unbounded_dfs_neighbors.psimps)
      have "fst st1 \<subseteq> fst st'"
        using "3.IH"(2) [OF \<open>neighbor \<notin> visited\<close> r _ _ e] False by simp
      with m show ?thesis by auto
    qed
  next
    case False
    show ?thesis
    proof (cases "neighbor \<in> rec_stack")
      case True
      with "3.prems" "3.hyps" False show ?thesis
        by (simp add: unbounded_dfs_neighbors.psimps)
    next
      case nr: False
      with "3.prems" "3.hyps" False
      have e: "unbounded_dfs_neighbors graph ns (visited, rec_stack) = Inr (b, st')"
        by (simp add: unbounded_dfs_neighbors.psimps)
      show ?thesis using "3.IH"(3) [OF False nr e] by simp
    qed
  qed
qed

lemma finite_graph_nodes: "finite (graph_nodes g)"
  by (auto simp: graph_nodes_def)

lemma graph_get_nodes: "set (graph_get g n) \<subseteq> graph_nodes g"
proof
  fix x assume "x \<in> set (graph_get g n)"
  then obtain ns where "map_of g n = Some ns" "x \<in> set ns"
    by (cases "map_of g n") (auto simp: graph_get_def)
  then have "(n, ns) \<in> set g" by (auto dest: map_of_SomeD)
  with \<open>x \<in> set ns\<close> show "x \<in> graph_nodes g"
    by (force simp: graph_nodes_def)
qed

termination unbounded_dfs
proof (relation "inv_image (finite_psubset <*lex*> less_than)
     (\<lambda>x. case x of
        Inl (g, n, v, r) \<Rightarrow> (graph_nodes g - insert n v, Suc (length (graph_get g n)))
      | Inr (g, ns, v, r) \<Rightarrow> ((graph_nodes g \<union> set ns) - v, length ns))", goal_cases)
  case 1
  show ?case by (intro wf_inv_image wf_lex_prod wf_finite_psubset wf_less_than)
next
  case (2 graph node visited rec_stack)
  have "(graph_nodes graph \<union> set (graph_get graph node)) = graph_nodes graph"
    using graph_get_nodes by blast
  then show ?case by simp
next
  case (3 graph neighbor ns visited rec_stack)
  have "graph_nodes graph - insert neighbor visited \<subset> graph_nodes graph \<union> set (neighbor # ns) - visited"
    using 3 by auto
  then show ?case by (simp add: finite_psubset_def finite_graph_nodes)
next
  case (4 graph neighbor ns visited rec_stack x2 x1 st')
  then have "visited \<subseteq> fst st'"
    using unbounded_dfs_visited_mono(1) [of graph neighbor "(visited, rec_stack)" False st'] by simp
  then have "graph_nodes graph \<union> set ns - fst st' \<subseteq> graph_nodes graph \<union> set (neighbor # ns) - visited"
    by auto
  then have "graph_nodes graph \<union> set ns - fst st' \<subset> graph_nodes graph \<union> set (neighbor # ns) - visited
     \<or> graph_nodes graph \<union> set ns - fst st' = graph_nodes graph \<union> set (neighbor # ns) - visited"
    by blast
  then show ?case
    by (cases st') (simp add: finite_psubset_def finite_graph_nodes)
next
  case (5 graph neighbor ns visited rec_stack)
  then show ?case by (simp add: finite_psubset_def finite_graph_nodes)
qed

declare unbounded_dfs.simps [simp del] unbounded_dfs_neighbors.simps [simp del]

fun unbounded_dfs_all :: "(int, int list) dict \<Rightarrow> int list \<Rightarrow> int set \<times> int set \<Rightarrow> error + bool" where
  "unbounded_dfs_all graph [] st = Inr False"
| "unbounded_dfs_all graph (tid # rest) (visited, rec_stack) =
     (if tid \<notin> visited then
        (case unbounded_dfs graph tid (visited, rec_stack) of
           Inl e \<Rightarrow> Inl e
         | Inr (True, st) \<Rightarrow> Inr True
         | Inr (False, st') \<Rightarrow> unbounded_dfs_all graph rest st')
      else unbounded_dfs_all graph rest (visited, rec_stack))"

section \<open>The allocator\<close>

lemma allocate_loop_allocated:
  "allocate_loop rs ts (ct, acc, db) = (Inr allocs, db') \<Longrightarrow>
   \<exists>new. allocs = acc @ new \<and> allocated rs ct ts new
         \<and> db' = db\<lparr>new_allocations := new_allocations db @ new\<rparr>"
proof (induction ts arbitrary: ct acc db)
  case Nil
  then show ?case by simp
next
  case (Cons t ts)
  from Cons.prems obtain r where r: "choose_resource rs t = Inr r"
    by (cases "choose_resource rs t") auto
  from Cons.prems r obtain delta where d: "timedelta_minutes (estimated_duration t) = Inr delta"
    by (cases "timedelta_minutes (estimated_duration t)") auto
  from Cons.prems r d obtain end_time where e: "datetime_add ct delta = Inr end_time"
    by (cases "datetime_add ct delta") auto
  let ?a = "\<lparr>task_id = t_id t, resource_id = r_id r, scheduled_start = ct,
              scheduled_end = end_time\<rparr>"
  from Cons.prems r d e
  have "allocate_loop rs ts (end_time, acc @ [?a], db_add_allocation ?a db) = (Inr allocs, db')"
    by (simp add: Let_def)
  from Cons.IH [OF this] obtain new where new: "allocs = (acc @ [?a]) @ new"
    "allocated rs end_time ts new"
    "db' = (db_add_allocation ?a db)\<lparr>new_allocations :=
              new_allocations (db_add_allocation ?a db) @ new\<rparr>"
    by blast
  from d have "delta = estimated_duration t * 60000000"
    by (auto simp: timedelta_minutes_def split: if_splits)
  with e have "end_time = ct + estimated_duration t * 60000000"
    by (auto simp: datetime_add_def split: if_splits)
  with new r have "allocs = acc @ (?a # new) \<and> allocated rs ct (t # ts) (?a # new)
     \<and> db' = db\<lparr>new_allocations := new_allocations db @ (?a # new)\<rparr>"
    by (simp add: db_add_allocation_def)
  then show ?case by blast
qed

lemma allocated_length: "allocated rs ct ts as \<Longrightarrow> length as = length ts"
  by (induction rs ct ts as rule: allocated.induct) auto

lemma allocated_nth:
  "allocated rs ct ts as \<Longrightarrow> i < length ts \<Longrightarrow>
   task_id (as ! i) = t_id (ts ! i)
   \<and> scheduled_end (as ! i) = scheduled_start (as ! i) + estimated_duration (ts ! i) * 60000000
   \<and> (\<exists>r. choose_resource rs (ts ! i) = Inr r \<and> resource_id (as ! i) = r_id r)"
proof (induction rs ct ts as arbitrary: i rule: allocated.induct)
  case (2 rs ct t ts a as)
  then show ?case by (cases i) auto
qed auto

lemma allocated_start:
  "allocated rs ct ts as \<Longrightarrow> 0 < length as \<Longrightarrow> scheduled_start (as ! 0) = ct"
  by (induction rs ct ts as rule: allocated.induct) auto

lemma allocated_contiguous:
  "allocated rs ct ts as \<Longrightarrow> Suc i < length as \<Longrightarrow>
   scheduled_start (as ! Suc i) = scheduled_end (as ! i)"
proof (induction rs ct ts as arbitrary: i rule: allocated.induct)
  case (2 rs ct t ts a as)
  show ?case
  proof (cases i)
    case 0
    from "2.prems" have "allocated rs (scheduled_end a) ts as" and "0 < length as"
      by auto
    from allocated_start [OF this] 0 show ?thesis by simp
  next
    case (Suc j)
    from "2.prems" Suc have "allocated rs (scheduled_end a) ts as" and "Suc j < length as"
      by auto
    from "2.IH" [OF this] Suc show ?thesis by simp
  qed
qed auto

lemma allocate_resources_allocated:
  assumes "allocate_resources now db project_id = (Inr allocations, db')"
  shows "\<exists>sorted_tasks. topological_sort db project_id = Inr sorted_tasks
           \<and> query_available_resources db \<noteq> []
           \<and> allocated (query_available_resources db) now sorted_tasks allocations
           \<and> db' = db_commit (db\<lparr>new_allocations := new_allocations db @ allocations\<rparr>)"
proof -
  from assms obtain sorted_tasks where s: "topological_sort db project_id = Inr sorted_tasks"
    by (cases "topological_sort db project_id") (auto simp: allocate_resources_def)
  let ?rs = "query_available_resources db"
  from assms s have ne: "?rs \<noteq> []"
    by (auto simp: allocate_resources_def Let_def split: if_splits)
  obtain res db1 where l: "allocate_loop ?rs sorted_tasks (now, [], db) = (res, db1)"
    by (cases "allocate_loop ?rs sorted_tasks (now, [], db)") auto
  with assms s ne have "res = Inr allocations" "db' = db_commit db1"
    by (cases res; simp add: allocate_resources_def Let_def)+
  with l allocate_loop_allocated [of ?rs sorted_tasks now "[]" db allocations db1] s ne
  show ?thesis by auto
qed

text \<open>
  Claim C3.  In every run of \<^verbatim>\<open>allocate_resources\<close> that returns, the allocations
  follow the sorted tasks one by one; each lasts exactly the task's estimated duration
  (minutes, here in microseconds), and each ends no later than the next one starts.
\<close>
theorem allocation_duration_and_order:
  assumes "allocate_resources now db project_id = (Inr allocations, db')"
  shows "\<exists>sorted_tasks. topological_sort db project_id = Inr sorted_tasks
           \<and> length allocations = length sorted_tasks
           \<and> (\<forall>i<length allocations.
                 task_id (allocations ! i) = t_id (sorted_tasks ! i)
                 \<and> scheduled_end (allocations ! i) - scheduled_start (allocations ! i)
                     = estimated_duration (sorted_tasks ! i) * 60000000)
           \<and> (\<forall>i. Suc i < length allocations \<longrightarrow>
                 scheduled_end (allocations ! i) \<le> scheduled_start (allocations ! Suc i))"
proof -
  from allocate_resources_allocated [OF assms] obtain sorted_tasks where
    s: "topological_sort db project_id = Inr sorted_tasks" and
    a: "allocated (query_available_resources db) now sorted_tasks allocations"
    by blast
  have len: "length allocations = length sorted_tasks" using a by (rule allocated_length)
  have "\<forall>i<length allocations.
          task_id (allocations ! i) = t_id (sorted_tasks ! i)
          \<and> scheduled_end (allocations ! i) - scheduled_start (allocations ! i)
              = estimated_duration (sorted_tasks ! i) * 60000000"
    using allocated_nth [OF a] len by auto
  moreover have "\<forall>i. Suc i < length allocations \<longrightarrow>
       scheduled_end (allocations ! i) \<le> scheduled_start (allocations ! Suc i)"
    using allocated_contiguous [OF a] by auto
  ultimately show ?thesis using s len by blast
qed

lemma ex_db_sorted: "topological_sort ex_db 1 = Inr [ex_task1, ex_task2]"
  by code_simp

lemma ex_db_allocation:
  "allocate_resources 1000 ex_db 1 =
     (Inr ex_allocations, db_commit (ex_db\<lparr>new_allocations := ex_allocations\<rparr>))"
  by code_simp

theorem allocation_duration_and_order_witness:
  "allocate_resources 1000 ex_db 1
     = (Inr ex_allocations, db_commit (ex_db\<lparr>new_allocations := ex_allocations\<rparr>))
   \<and> topological_sort ex_db 1 = Inr [ex_task1, ex_task2]
   \<and> length ex_allocations = 2
   \<and> scheduled_end (ex_allocations ! 0) - scheduled_start (ex_allocations ! 0)
       = estimated_duration ex_task1 * 60000000
   \<and> scheduled_end (ex_allocations ! 1) - scheduled_start (ex_allocations ! 1)
       = estimated_duration ex_task2 * 60000000
   \<and> scheduled_end (ex_allocations ! 0) \<le> scheduled_start (ex_allocations ! 1)"
proof -
  from allocation_duration_and_order [OF ex_db_allocation] ex_db_sorted
  have len: "length ex_allocations = length [ex_task1, ex_task2]"
    and dur: "\<forall>i<length ex_allocations.
            scheduled_end (ex_allocations ! i) - scheduled_start (ex_allocations ! i)
              = estimated_duration ([ex_task1, ex_task2] ! i) * 60000000"
    and ord: "\<forall>i. Suc i < length ex_allocations \<longrightarrow>
            scheduled_end (ex_allocations ! i) \<le> scheduled_start (ex_allocations ! Suc i)"
    by auto
  from len have l2: "length ex_allocations = 2" by simp
  from dur [rule_format, of 0] l2
  have d0: "scheduled_end (ex_allocations ! 0) - scheduled_start (ex_allocations ! 0)
       = estimated_duration ex_task1 * 60000000"
    by simp
  from dur [rule_format, of 1] l2
  have d1: "scheduled_end (ex_allocations ! 1) - scheduled_start (ex_allocations ! 1)
       = estimated_duration ex_task2 * 60000000"
    by simp
  from ord [rule_format, of 0] l2
  have "scheduled_end (ex_allocations ! 0) \<le> scheduled_start (ex_allocations ! 1)"
    by simp
  with d0 d1 l2 ex_db_allocation ex_db_sorted show ?thesis by simp
qed

text \<open>
  Claim C10.  The timeline of a run that returns has no gaps: there is exactly one
  allocation per sorted task, in order; the first starts at the initial clock value and
  every later one starts exactly where its predecessor ends.
\<close>
theorem allocation_timeline_contiguous:
  assumes "allocate_resources now db project_id = (Inr allocations, db')"
  shows "\<exists>sorted_tasks. topological_sort db project_id = Inr sorted_tasks
           \<and> map task_id allocations = map t_id sorted_tasks
           \<and> (0 < length allocations \<longrightarrow> scheduled_start (allocations ! 0) = now)
           \<and> (\<forall>i. Suc i < length allocations \<longrightarrow>
                 scheduled_start (allocations ! Suc i) = scheduled_end (allocations ! i))"
proof -
  from allocate_resources_allocated [OF assms] obtain sorted_tasks where
    s: "topological_sort db project_id = Inr sorted_tasks" and
    a: "allocated (query_available_resources db) now sorted_tasks allocations"
    by blast
  have len: "length allocations = length sorted_tasks" using a by (rule allocated_length)
  have "map task_id allocations = map t_id sorted_tasks"
    using allocated_nth [OF a] len by (intro nth_equalityI) auto
  moreover have "0 < length allocations \<longrightarrow> scheduled_start (allocations ! 0) = now"
    using allocated_start [OF a] by simp
  moreover have "\<forall>i. Suc i < length allocations \<longrightarrow>
       scheduled_start (allocations ! Suc i) = scheduled_end (allocations ! i)"
    using allocated_contiguous [OF a] by simp
  ultimately show ?thesis using s by blast
qed

theorem allocation_timeline_contiguous_witness:
  "allocate_resources 1000 ex_db 1
     = (Inr ex_allocations, db_commit (ex_db\<lparr>new_allocations := ex_allocations\<rparr>))
   \<and> topological_sort ex_db 1 = Inr [ex_task1, ex_task2]
   \<and> map task_id ex_allocations = [1, 2]
   \<and> scheduled_start (ex_allocations ! 0) = 1000
   \<and> scheduled_start (ex_allocations ! 1) = scheduled_end (ex_allocations ! 0)"
proof -
  from allocation_timeline_contiguous [OF ex_db_allocation] ex_db_sorted
  have ids: "map task_id ex_allocations = map t_id [ex_task1, ex_task2]"
    and st: "0 < length ex_allocations \<longrightarrow> scheduled_start (ex_allocations ! 0) = 1000"
    and ct: "\<forall>i. Suc i < length ex_allocations \<longrightarrow>
            scheduled_start (ex_allocations ! Suc i) = scheduled_end (ex_allocations ! i)"
    by auto
  from arg_cong [OF ids, of length] have l2: "length ex_allocations = 2" by simp
  from st l2 have s0: "scheduled_start (ex_allocations ! 0) = 1000" by simp
  from ct [rule_format, of 0] l2
  have "scheduled_start (ex_allocations ! 1) = scheduled_end (ex_allocations ! 0)" by simp
  with s0 ids ex_db_allocation ex_db_sorted show ?thesis
    by (simp add: ex_task1_def ex_task2_def)
qed

text \<open>
  Claim C7.  With no available resource the call fails, with the error of the
  topological sort if that raised and with HTTP 400 otherwise, and the session is
  left as it was: nothing is added and nothing is committed.
\<close>
theorem allocate_without_resources_fails:
  assumes "query_available_resources db = []"
  shows "allocate_resources now db project_id
           = (Inl (case topological_sort db project_id of
                     Inl e \<Rightarrow> e
                   | Inr sorted_tasks \<Rightarrow> HTTPException 400 ''No available resources''), db)"
  using assms by (simp add: allocate_resources_def split: sum.splits)

theorem allocate_without_resources_fails_witness:
  "query_available_resources ex_db_no_resources = []
   \<and> allocate_resources 1000 ex_db_no_resources 1
       = (Inl (HTTPException 400 ''No available resources''), ex_db_no_resources)"
proof -
  have h: "query_available_resources ex_db_no_resources = []" by code_simp
  have "topological_sort ex_db_no_resources 1 = Inr [ex_task1, ex_task2]" by code_simp
  with allocate_without_resources_fails [OF h, of 1000 1] h show ?thesis by simp
qed

lemma skill_match_subset:
  "skill_match r t \<longleftrightarrow> set (required_skills t) \<subseteq> set (skills r)"
  by (auto simp: skill_match_def list_all_iff)

lemma find_best_resource_Some:
  "find_best_resource rs t = Some r \<Longrightarrow> r \<in> set rs \<and> r_type r = EMPLOYEE \<and> skill_match r t"
  by (induction rs) (auto split: if_splits)

lemma find_best_resource_None:
  "find_best_resource rs t = None \<Longrightarrow> r \<in> set rs \<Longrightarrow> \<not> (r_type r = EMPLOYEE \<and> skill_match r t)"
  by (induction rs) (auto split: if_splits)

text \<open>
  Claim C6 as stated fails: an available piece of equipment covers the task's skills,
  yet the allocator, which matches skills on employees only, falls back to the first
  resource, an employee without the skill.
\<close>
theorem skill_match_any_kind_counterexample:
  "resources_table (store ex_db_equipment) = [ex_unskilled, ex_equipment]
   \<and> available ex_equipment
   \<and> set (required_skills ex_task1) \<subseteq> set (skills ex_equipment)
   \<and> topological_sort ex_db_equipment 1 = Inr [ex_task1]
   \<and> fst (allocate_resources 1000 ex_db_equipment 1)
       = Inr [\<lparr>task_id = 1, resource_id = r_id ex_unskilled, scheduled_start = 1000,
               scheduled_end = 14400001000\<rparr>]
   \<and> r_id ex_unskilled \<noteq> r_id ex_equipment
   \<and> \<not> set (required_skills ex_task1) \<subseteq> set (skills ex_unskilled)"
  by code_simp

text \<open>
  Claim C6, amended.  If some available employee covers the required skills of a task,
  the resource chosen for it is an available employee that covers them; if no available
  employee does, the first available resource is chosen, whatever its kind and skills.
\<close>
theorem skill_match_employee:
  assumes "allocate_resources now db project_id = (Inr allocations, db')"
    and "topological_sort db project_id = Inr sorted_tasks"
    and "i < length sorted_tasks"
  shows "((\<exists>r\<in>set (resources_table (store db)). available r \<and> r_type r = EMPLOYEE
             \<and> set (required_skills (sorted_tasks ! i)) \<subseteq> set (skills r))
          \<longrightarrow> (\<exists>r\<in>set (resources_table (store db)). available r \<and> r_type r = EMPLOYEE
                 \<and> set (required_skills (sorted_tasks ! i)) \<subseteq> set (skills r)
                 \<and> resource_id (allocations ! i) = r_id r))
       \<and> (\<not> (\<exists>r\<in>set (resources_table (store db)). available r \<and> r_type r = EMPLOYEE
                \<and> set (required_skills (sorted_tasks ! i)) \<subseteq> set (skills r))
          \<longrightarrow> (\<exists>r rs. filter available (resources_table (store db)) = r # rs
                 \<and> resource_id (allocations ! i) = r_id r))"
proof -
  let ?rs = "query_available_resources db"
  let ?t = "sorted_tasks ! i"
  from allocate_resources_allocated [OF assms(1)] assms(2)
  have a: "allocated ?rs now sorted_tasks allocations" and ne: "?rs \<noteq> []"
    by auto
  from allocated_nth [OF a assms(3)] obtain r where
    r: "choose_resource ?rs ?t = Inr r" "resource_id (allocations ! i) = r_id r"
    by blast
  have set_rs: "set ?rs = {r \<in> set (resources_table (store db)). available r}"
    by (auto simp: query_available_resources_def)
  show ?thesis
  proof (cases "find_best_resource ?rs ?t")
    case None
    from find_best_resource_None [OF None] set_rs
    have no: "\<not> (\<exists>r\<in>set (resources_table (store db)). available r \<and> r_type r = EMPLOYEE
                \<and> set (required_skills ?t) \<subseteq> set (skills r))"
      by (auto simp: skill_match_subset)
    from ne obtain r0 rs0 where rs0: "?rs = r0 # rs0" by (cases ?rs) auto
    with None r have "r = r0" by (simp add: choose_resource_def)
    with rs0 r no show ?thesis by (auto simp: query_available_resources_def)
  next
    case (Some b)
    with r have "r = b" by (simp add: choose_resource_def)
    with find_best_resource_Some [OF Some] set_rs r show ?thesis
      by (auto simp: skill_match_subset)
  qed
qed

theorem skill_match_employee_witness:
  "allocate_resources 1000 ex_db 1
     = (Inr ex_allocations, db_commit (ex_db\<lparr>new_allocations := ex_allocations\<rparr>))
   \<and> topological_sort ex_db 1 = Inr [ex_task1, ex_task2]
   \<and> (0::nat) < length [ex_task1, ex_task2]
   \<and> resources_table (store ex_db) = [ex_employee]
   \<and> available ex_employee \<and> r_type ex_employee = EMPLOYEE
   \<and> set (required_skills ex_task1) \<subseteq> set (skills ex_employee)
   \<and> resource_id (ex_allocations ! 0) = r_id ex_employee"
proof -
  have i: "(0::nat) < length [ex_task1, ex_task2]" by simp
  have rs: "resources_table (store ex_db) = [ex_employee]"
    by (simp add: ex_db_def ex_session_def)
  have e: "available ex_employee \<and> r_type ex_employee = EMPLOYEE
           \<and> set (required_skills ex_task1) \<subseteq> set (skills ex_employee)"
    by (simp add: ex_employee_def ex_task1_def)
  from skill_match_employee [OF ex_db_allocation ex_db_sorted i] rs e
  have "resource_id (ex_allocations ! 0) = r_id ex_employee" by simp
  with ex_db_allocation ex_db_sorted i rs e show ?thesis by simp
qed

text \<open>
  The loop returns allocations whenever a resource is available, no duration is
  negative and the timeline ends before \<^verbatim>\<open>datetime.max\<close>.
\<close>

lemma allocate_loop_succeeds:
  assumes "rs \<noteq> []"
    and "\<forall>t\<in>set ts. 0 \<le> estimated_duration t"
    and "0 \<le> ct"
    and "ct + 60000000 * sum_list (map estimated_duration ts) < 3652059 * 86400000000"
  shows "\<exists>allocs db'. allocate_loop rs ts (ct, acc, db) = (Inr allocs, db')"
  using assms
proof (induction ts arbitrary: ct acc db)
  case Nil
  show ?case by simp
next
  case (Cons t ts)
  let ?d = "estimated_duration t"
  from Cons.prems have d0: "0 \<le> ?d" by simp
  from Cons.prems(2) have s0: "0 \<le> sum_list (map estimated_duration ts)"
    by (intro sum_list_nonneg) auto
  from Cons.prems(1) obtain r where r: "choose_resource rs t = Inr r"
    by (cases rs; cases "find_best_resource rs t") (auto simp: choose_resource_def)
  from Cons.prems(3,4) d0 s0 have lt: "?d * 60000000 < 3652059 * 86400000000" by simp
  then have "?d div 1440 \<le> 999999999" by simp
  moreover from d0 have "- 999999999 \<le> ?d div 1440"
    by (metis div_int_pos_iff dual_order.trans neg_numeral_le_zero zero_le_numeral)
  ultimately have td: "timedelta_minutes ?d = Inr (?d * 60000000)"
    by (simp add: timedelta_minutes_def)
  from Cons.prems(3,4) d0 s0 have da: "datetime_add ct (?d * 60000000) = Inr (ct + ?d * 60000000)"
    by (simp add: datetime_add_def)
  let ?a = "\<lparr>task_id = t_id t, resource_id = r_id r, scheduled_start = ct,
              scheduled_end = ct + ?d * 60000000\<rparr>"
  have "\<exists>allocs db'. allocate_loop rs ts
          (ct + ?d * 60000000, acc @ [?a], db_add_allocation ?a db) = (Inr allocs, db')"
  proof (rule Cons.IH)
    show "rs \<noteq> []" by (rule Cons.prems(1))
    show "\<forall>t\<in>set ts. 0 \<le> estimated_duration t" using Cons.prems(2) by simp
    show "0 \<le> ct + ?d * 60000000" using Cons.prems(3) d0 by simp
    show "ct + ?d * 60000000 + 60000000 * sum_list (map estimated_duration ts)
            < 3652059 * 86400000000"
      using Cons.prems(4) by (simp add: algebra_simps)
  qed
  with r td da show ?case by (simp add: Let_def)
qed

section \<open>Kahn's algorithm\<close>

lemma update_fresh: "k \<notin> fst ` set al \<Longrightarrow> AList.update k v al = al @ [(k, v)]"
  by (induction al) auto

lemma fold_update_distinct:
  "distinct (map fst acc @ map t_id ts) \<Longrightarrow>
   fold (\<lambda>t d. AList.update (t_id t) (f t) d) ts acc = acc @ map (\<lambda>t. (t_id t, f t)) ts"
proof (induction ts arbitrary: acc)
  case Nil
  then show ?case by simp
next
  case (Cons t ts)
  from Cons.prems have fresh: "t_id t \<notin> fst ` set acc" by auto
  from Cons.prems have "distinct (map fst (acc @ [(t_id t, f t)]) @ map t_id ts)" by auto
  from Cons.IH [OF this] fresh show ?case by (simp add: update_fresh)
qed

lemma dict_of_tasks_distinct:
  "distinct (map t_id ts) \<Longrightarrow> dict_of_tasks f ts = map (\<lambda>t. (t_id t, f t)) ts"
  using fold_update_distinct [of "[]" ts f] by (simp add: dict_of_tasks_def)

lemma map_of_dict_of_tasks:
  "distinct (map t_id ts) \<Longrightarrow> t \<in> set ts \<Longrightarrow> map_of (dict_of_tasks f ts) (t_id t) = Some (f t)"
proof -
  assume d: "distinct (map t_id ts)" and t: "t \<in> set ts"
  have "map_of (map (\<lambda>t. (t_id t, f t)) ts) (t_id t) = Some (f t)"
  proof (rule map_of_is_SomeI)
    show "distinct (map fst (map (\<lambda>t. (t_id t, f t)) ts))" using d by (simp add: comp_def)
    show "(t_id t, f t) \<in> set (map (\<lambda>t. (t_id t, f t)) ts)" using t by auto
  qed
  then show ?thesis using d by (simp add: dict_of_tasks_distinct)
qed

lemma keys_dict_of_tasks:
  "distinct (map t_id ts) \<Longrightarrow> map fst (dict_of_tasks f ts) = map t_id ts"
  by (simp add: dict_of_tasks_distinct comp_def)

lemma keys_update_present:
  "k \<in> fst ` set al \<Longrightarrow> map fst (AList.update k v al) = map fst al"
  by (induction al) auto

lemma map_of_None_keys: "map_of al k = None \<longleftrightarrow> k \<notin> fst ` set al"
  by (simp add: map_of_eq_None_iff)

lemma build_graph_in_degree_result:
  assumes "\<forall>d\<in>set deps. predecessor_task_id d \<in> fst ` set g \<and> successor_task_id d \<in> fst ` set ind"
  shows "\<exists>g' ind'. build_graph_in_degree deps (g, ind) = Inr (g', ind')
           \<and> map fst g' = map fst g \<and> map fst ind' = map fst ind
           \<and> (\<forall>p. map_of g' p = map_option (\<lambda>l. l @ successors_of (edges_of deps) p) (map_of g p))
           \<and> (\<forall>n. map_of ind' n
                 = map_option (\<lambda>k. k + int (in_degree_of (edges_of deps) n)) (map_of ind n))"
  using assms
proof (induction deps arbitrary: g ind)
  case Nil
  show ?case
    by (simp add: edges_of_def successors_of_def in_degree_of_def option.map_ident)
next
  case (Cons dep deps)
  let ?p = "predecessor_task_id dep" and ?s = "successor_task_id dep"
  from Cons.prems obtain succs where sc: "map_of g ?p = Some succs"
    by (cases "map_of g ?p") (auto simp: map_of_None_keys)
  from Cons.prems obtain n where n: "map_of ind ?s = Some n"
    by (cases "map_of ind ?s") (auto simp: map_of_None_keys)
  let ?g = "AList.update ?p (succs @ [?s]) g" and ?ind = "AList.update ?s (n + 1) ind"
  from Cons.prems have kg: "map fst ?g = map fst g" and ki: "map fst ?ind = map fst ind"
    by (simp_all add: keys_update_present)
  then have sg: "fst ` set ?g = fst ` set g" and si: "fst ` set ?ind = fst ` set ind"
    by (metis list.set_map)+
  with Cons.prems
  have "\<forall>d\<in>set deps. predecessor_task_id d \<in> fst ` set ?g \<and> successor_task_id d \<in> fst ` set ?ind"
    by simp
  from Cons.IH [OF this] obtain g' ind' where
    r: "build_graph_in_degree deps (?g, ?ind) = Inr (g', ind')"
    and k: "map fst g' = map fst ?g" "map fst ind' = map fst ?ind"
    and mg: "\<forall>p. map_of g' p = map_option (\<lambda>l. l @ successors_of (edges_of deps) p) (map_of ?g p)"
    and mi: "\<forall>n. map_of ind' n
                 = map_option (\<lambda>k. k + int (in_degree_of (edges_of deps) n)) (map_of ?ind n)"
    by blast
  have "build_graph_in_degree (dep # deps) (g, ind) = Inr (g', ind')"
    using r sc n by simp
  moreover have "\<forall>p. map_of g' p
       = map_option (\<lambda>l. l @ successors_of (edges_of (dep # deps)) p) (map_of g p)"
    using mg sc by (auto simp: update_conv' edges_of_def successors_of_def)
  moreover have "\<forall>m. map_of ind' m
       = map_option (\<lambda>k. k + int (in_degree_of (edges_of (dep # deps)) m)) (map_of ind m)"
    using mi n by (auto simp: update_conv' edges_of_def in_degree_of_def)
  ultimately show ?case using k kg ki by simp
qed

lemma relax_result:
  assumes "\<forall>n\<in>set ns. map_of ind n \<noteq> None"
  shows "\<exists>ind' q'. relax ns (ind, q) = Inr (ind', q')
           \<and> map fst ind' = map fst ind
           \<and> (\<forall>n. map_of ind' n = map_option (\<lambda>k. k - int (count_list ns n)) (map_of ind n))
           \<and> set q' = set q \<union> {n \<in> set ns. \<exists>k. map_of ind n = Some k \<and> 1 \<le> k
                                        \<and> k \<le> int (count_list ns n)}
           \<and> (distinct q \<and> (\<forall>m\<in>set q. \<forall>k. map_of ind m = Some k \<longrightarrow> k \<le> 0) \<longrightarrow> distinct q')"
  using assms
proof (induction ns arbitrary: ind q)
  case Nil
  show ?case by (simp add: option.map_ident)
next
  case (Cons n ns)
  from Cons.prems obtain k where k: "map_of ind n = Some k" by auto
  let ?ind = "AList.update n (k - 1) ind"
  let ?q = "if k - 1 = 0 then q @ [n] else q"
  have m1: "\<And>m. map_of ?ind m = (if m = n then Some (k - 1) else map_of ind m)"
    by (simp add: update_conv')
  from k have nk: "n \<in> fst ` set ind" by (metis map_of_None_keys option.distinct(1))
  have keys: "map fst ?ind = map fst ind" using nk by (rule keys_update_present)
  from Cons.prems have "\<forall>m\<in>set ns. map_of ?ind m \<noteq> None" by (simp add: m1)
  from Cons.IH [OF this, of ?q] obtain ind' q' where
    r: "relax ns (?ind, ?q) = Inr (ind', q')"
    and kk: "map fst ind' = map fst ?ind"
    and mm: "\<forall>m. map_of ind' m = map_option (\<lambda>k. k - int (count_list ns m)) (map_of ?ind m)"
    and ss: "set q' = set ?q \<union> {m \<in> set ns. \<exists>k. map_of ?ind m = Some k \<and> 1 \<le> k
                                        \<and> k \<le> int (count_list ns m)}"
    and dd: "distinct ?q \<and> (\<forall>m\<in>set ?q. \<forall>k. map_of ?ind m = Some k \<longrightarrow> k \<le> 0) \<longrightarrow> distinct q'"
    by blast
  have c1: "relax (n # ns) (ind, q) = Inr (ind', q')" using r k by simp
  have c2: "map fst ind' = map fst ind" using kk keys by simp
  have c3: "\<forall>m. map_of ind' m = map_option (\<lambda>k. k - int (count_list (n # ns) m)) (map_of ind m)"
    using mm k by (auto simp: m1)
  have pos: "\<And>m. 1 \<le> int (count_list ns m) \<longleftrightarrow> m \<in> set ns"
  proof -
    fix m
    have "count_list ns m = 0 \<longleftrightarrow> m \<notin> set ns" by (rule count_list_0_iff)
    then show "1 \<le> int (count_list ns m) \<longleftrightarrow> m \<in> set ns" by linarith
  qed
  have c4: "set q' = set q \<union> {m \<in> set (n # ns). \<exists>k. map_of ind m = Some k \<and> 1 \<le> k
                                        \<and> k \<le> int (count_list (n # ns) m)}"
  proof -
    define A where "A = {m \<in> set ns. \<exists>k. map_of ?ind m = Some k \<and> 1 \<le> k
                                        \<and> k \<le> int (count_list ns m)}"
    define B where "B = (if k = 1 then {n} else {})"
    define C where "C = {m \<in> set (n # ns). \<exists>k. map_of ind m = Some k \<and> 1 \<le> k
                                        \<and> k \<le> int (count_list (n # ns) m)}"
    have "A \<union> B = C"
    proof (intro set_eqI iffI)
      fix m assume "m \<in> A \<union> B"
      then show "m \<in> C" using k unfolding A_def B_def C_def
        by (auto simp: m1 split: if_splits)
    next
      fix m assume mc: "m \<in> C"
      show "m \<in> A \<union> B"
      proof (cases "m = n")
        case True
        with mc k have b: "1 \<le> k" "k \<le> int (count_list ns n) + 1"
          unfolding C_def by auto
        show ?thesis
        proof (cases "k = 1")
          case True
          with \<open>m = n\<close> show ?thesis by (simp add: B_def)
        next
          case False
          with b have "1 \<le> k - 1" "k - 1 \<le> int (count_list ns n)" by auto
          moreover from this have "n \<in> set ns" using pos [of n] by linarith
          ultimately show ?thesis using \<open>m = n\<close> by (simp add: m1 A_def)
        qed
      next
        case False
        with mc show ?thesis unfolding A_def C_def by (auto simp: m1)
      qed
    qed
    moreover have "set ?q = set q \<union> B" by (auto simp: B_def)
    moreover have "set q' = set ?q \<union> A" using ss by (simp only: A_def)
    ultimately have "set q' = set q \<union> C" by blast
    then show ?thesis by (simp only: C_def)
  qed
  have c5: "distinct q \<and> (\<forall>m\<in>set q. \<forall>k. map_of ind m = Some k \<longrightarrow> k \<le> 0) \<longrightarrow> distinct q'"
  proof
    assume a: "distinct q \<and> (\<forall>m\<in>set q. \<forall>k. map_of ind m = Some k \<longrightarrow> k \<le> 0)"
    have "distinct ?q" using a k by auto
    moreover have "\<forall>m\<in>set ?q. \<forall>k. map_of ?ind m = Some k \<longrightarrow> k \<le> 0"
      using a k by (auto simp: m1 split: if_splits)
    ultimately show "distinct q'" using dd by blast
  qed
  from c1 c2 c3 c4 c5 show ?case by blast
qed

lemma remaining_zero_iff:
  "remaining E P n = 0 \<longleftrightarrow> (\<forall>e\<in>set E. snd e = n \<longrightarrow> fst e \<in> P)"
  by (auto simp: remaining_def filter_empty_conv)

lemma count_list_successors_of:
  "count_list (successors_of E c) n = length (filter (\<lambda>e. fst e = c \<and> snd e = n) E)"
  by (induction E) (auto simp: successors_of_def)

lemma remaining_insert:
  "c \<notin> P \<Longrightarrow> remaining E (insert c P) n + count_list (successors_of E c) n = remaining E P n"
  unfolding count_list_successors_of by (induction E) (auto simp: remaining_def)

lemma precedes_append: "precedes p s xs \<Longrightarrow> precedes p s (xs @ ys)"
  unfolding precedes_def
  by (metis length_append nth_append trans_less_add1 less_trans)

lemma precedes_last: "p \<in> set xs \<Longrightarrow> precedes p c (xs @ [c])"
proof -
  assume "p \<in> set xs"
  then obtain i where "i < length xs" "xs ! i = p" by (auto simp: in_set_conv_nth)
  then have "i < length xs \<and> length xs < length (xs @ [c]) \<and> (xs @ [c]) ! i = p
     \<and> (xs @ [c]) ! length xs = c"
    by (simp add: nth_append)
  then show ?thesis unfolding precedes_def by blast
qed

lemma precedes_mem: "precedes p s xs \<Longrightarrow> p \<in> set xs \<and> s \<in> set xs"
  unfolding precedes_def by (metis less_trans nth_mem)

lemma kahn_step_inv:
  assumes ctx: "kahn_context ts E g tm"
    and inv: "kahn_inv ts E (ind, q, out)"
    and ne: "q \<noteq> []"
  shows "\<exists>ind' q' t. kahn_step g tm (ind, q, out) = Inr (ind', q', out @ [t])
           \<and> t \<in> set ts \<and> t_id t \<in> set q
           \<and> (\<forall>t'\<in>set ts. t_id t' \<in> set q \<longrightarrow> priority t' \<le> priority t)
           \<and> kahn_inv ts E (ind', q', out @ [t])"
proof -
  let ?ids = "t_id ` set ts"
  let ?P = "t_id ` set out"
  let ?f = "\<lambda>tid. case map_of tm tid of Some t \<Rightarrow> - priority t | None \<Rightarrow> 0"
  from ctx have dts: "distinct (map t_id ts)"
    and edges: "\<And>e. e \<in> set E \<Longrightarrow> fst e \<in> ?ids \<and> snd e \<in> ?ids"
    and gm: "\<And>t. t \<in> set ts \<Longrightarrow> map_of g (t_id t) = Some (successors_of E (t_id t))"
    and tmm: "\<And>t. t \<in> set ts \<Longrightarrow> map_of tm (t_id t) = Some t"
    by (auto simp: kahn_context_def)
  from inv have dout: "distinct (map t_id out)" and dq: "distinct q"
    and outs: "set out \<subseteq> set ts"
    and qset: "set q = {n \<in> ?ids. n \<notin> ?P \<and> remaining E ?P n = 0}"
    and indm: "\<And>n. n \<in> ?ids \<Longrightarrow> map_of ind n = Some (int (remaining E ?P n))"
    and ord: "\<And>e. e \<in> set E \<Longrightarrow> snd e \<in> ?P \<Longrightarrow> precedes (fst e) (snd e) (map t_id out)"
    by (auto simp: kahn_inv_def)
  \<comment> \<open>sorting the queue\<close>
  have "list_all (\<lambda>tid. map_of tm tid \<noteq> None) q"
    using qset tmm by (auto simp: list_all_iff)
  then have sq: "sort_queue tm q = Inr (sort_key ?f q)" by (simp add: sort_queue_def)
  from ne have "sort_key ?f q \<noteq> []" by (metis length_sort length_0_conv)
  then obtain current rest where cr: "sort_key ?f q = current # rest"
    by (cases "sort_key ?f q") auto
  have setq: "set q = insert current (set rest)"
    using cr by (metis list.simps(15) set_sort)
  have dcr: "distinct (current # rest)" using dq cr by (metis distinct_sort)
  then have cnr: "current \<notin> set rest" and drest: "distinct rest" by auto
  have restq: "set rest = set q - {current}" using setq cnr by auto
  have cq: "current \<in> set q" using setq by simp
  with qset obtain t where t: "t \<in> set ts" "t_id t = current" by auto
  have cnp: "current \<notin> ?P" and crem: "remaining E ?P current = 0" using cq qset by auto
  let ?ns = "successors_of E current"
  have tmc: "map_of tm current = Some t" using tmm t by auto
  have gc: "map_of g current = Some ?ns" using gm t by auto
  have nsids: "set ?ns \<subseteq> ?ids" using edges by (auto simp: successors_of_def)
  then have "\<forall>n\<in>set ?ns. map_of ind n \<noteq> None" using indm by auto
  from relax_result [OF this, of rest] obtain ind' q' where
    rx: "relax ?ns (ind, rest) = Inr (ind', q')"
    and rm: "\<And>n. map_of ind' n = map_option (\<lambda>k. k - int (count_list ?ns n)) (map_of ind n)"
    and rs: "set q' = set rest \<union> {n \<in> set ?ns. \<exists>k. map_of ind n = Some k \<and> 1 \<le> k
                                        \<and> k \<le> int (count_list ?ns n)}"
    and rd: "distinct rest \<and> (\<forall>m\<in>set rest. \<forall>k. map_of ind m = Some k \<longrightarrow> k \<le> 0) \<longrightarrow> distinct q'"
    by blast
  have step: "kahn_step g tm (ind, q, out) = Inr (ind', q', out @ [t])"
    by (simp add: kahn_step_def sq cr tmc gc rx)
  \<comment> \<open>the popped task has the highest priority of the queue\<close>
  have "sorted (map ?f (current # rest))" using sorted_sort_key [of ?f q] cr by simp
  then have minf: "\<And>x. x \<in> set q \<Longrightarrow> ?f current \<le> ?f x" using setq by auto
  have prio: "\<forall>t'\<in>set ts. t_id t' \<in> set q \<longrightarrow> priority t' \<le> priority t"
  proof (intro ballI impI)
    fix t' assume "t' \<in> set ts" "t_id t' \<in> set q"
    with minf [of "t_id t'"] tmm [of t'] tmc show "priority t' \<le> priority t" by simp
  qed
  \<comment> \<open>the invariant after the step\<close>
  let ?P' = "t_id ` set (out @ [t])"
  have P': "?P' = insert current ?P" using t by auto
  have rem': "\<And>n. remaining E ?P' n + count_list ?ns n = remaining E ?P n"
    unfolding P' using remaining_insert [OF cnp] by simp
  have placed0: "\<And>s. s \<in> ?P \<Longrightarrow> remaining E ?P s = 0"
  proof -
    fix s assume s: "s \<in> ?P"
    have "\<forall>e\<in>set E. snd e = s \<longrightarrow> fst e \<in> ?P"
    proof (intro ballI impI)
      fix e assume "e \<in> set E" "snd e = s"
      with ord [of e] s have "precedes (fst e) (snd e) (map t_id out)" by simp
      then show "fst e \<in> ?P" using precedes_mem by fastforce
    qed
    then show "remaining E ?P s = 0" by (simp add: remaining_zero_iff)
  qed
  have i1: "distinct (map t_id (out @ [t]))" using dout cnp t by auto
  have i2: "distinct q'"
  proof -
    have "\<forall>m\<in>set rest. \<forall>k. map_of ind m = Some k \<longrightarrow> k \<le> 0"
      using restq qset indm by auto
    with rd drest show ?thesis by blast
  qed
  have i3: "set (out @ [t]) \<subseteq> set ts" using outs t by auto
  have i4: "set q' = {n \<in> ?ids. n \<notin> ?P' \<and> remaining E ?P' n = 0}"
  proof (intro set_eqI iffI)
    fix n assume "n \<in> set q'"
    with rs consider (old) "n \<in> set rest"
      | (new) k where "n \<in> set ?ns" "map_of ind n = Some k" "1 \<le> k" "k \<le> int (count_list ?ns n)"
      by auto
    then show "n \<in> {n \<in> ?ids. n \<notin> ?P' \<and> remaining E ?P' n = 0}"
    proof cases
      case old
      with restq qset have "n \<in> ?ids" "n \<notin> ?P" "n \<noteq> current" "remaining E ?P n = 0" by auto
      with rem' [of n] show ?thesis by (simp add: t(2))
    next
      case new
      from new(1) nsids have nid: "n \<in> ?ids" by auto
      with indm new(2) have k: "k = int (remaining E ?P n)" by simp
      with new rem' [of n] have r0: "remaining E ?P' n = 0" and r1: "1 \<le> remaining E ?P n"
        by linarith+
      from r1 placed0 [of n] have "n \<notin> ?P" by auto
      moreover from r1 crem have "n \<noteq> current" by auto
      ultimately show ?thesis using nid r0 by (simp add: t(2))
    qed
  next
    fix n assume "n \<in> {n \<in> ?ids. n \<notin> ?P' \<and> remaining E ?P' n = 0}"
    then have nid: "n \<in> ?ids" and np: "n \<notin> ?P" and nc: "n \<noteq> current"
      and r0: "remaining E ?P' n = 0"
      by (auto simp: t(2))
    show "n \<in> set q'"
    proof (cases "remaining E ?P n = 0")
      case True
      with nid np qset have "n \<in> set q" by auto
      with nc restq rs show ?thesis by auto
    next
      case False
      with rem' [of n] r0 have c: "int (remaining E ?P n) = int (count_list ?ns n)"
        and c1: "1 \<le> int (remaining E ?P n)"
        by linarith+
      then have "count_list ?ns n \<noteq> 0" by linarith
      then have "n \<in> set ?ns" by (simp add: count_list_0_iff)
      with indm [OF nid] c c1 rs show ?thesis by auto
    qed
  qed
  have i5: "\<forall>n\<in>?ids. map_of ind' n = Some (int (remaining E ?P' n))"
  proof
    fix n assume "n \<in> ?ids"
    from indm [OF this] rm [of n] rem' [of n]
    show "map_of ind' n = Some (int (remaining E ?P' n))" by simp
  qed
  have i6: "\<forall>e\<in>set E. snd e \<in> ?P' \<longrightarrow> precedes (fst e) (snd e) (map t_id (out @ [t]))"
  proof (intro ballI impI)
    fix e assume e: "e \<in> set E" and s: "snd e \<in> ?P'"
    show "precedes (fst e) (snd e) (map t_id (out @ [t]))"
    proof (cases "snd e \<in> ?P")
      case True
      from precedes_append [OF ord [OF e True], of "[t_id t]"] show ?thesis by simp
    next
      case False
      with s have sc: "snd e = current" by (simp add: t(2))
      with crem e have "fst e \<in> ?P" by (auto simp: remaining_zero_iff)
      then have "fst e \<in> set (map t_id out)" by simp
      from precedes_last [OF this, of current] sc t show ?thesis by simp
    qed
  qed
  have "kahn_inv ts E (ind', q', out @ [t])"
    unfolding kahn_inv_def using i1 i2 i3 i4 i5 i6 by simp
  with step t cq prio show ?thesis by blast
qed

lemma topological_sort_kahn_start:
  "topological_sort db project_id =
     (case kahn_start db project_id of
        Inl e \<Rightarrow> Inl e
      | Inr (graph, task_map, s) \<Rightarrow> kahn_loop graph task_map s)"
  by (simp add: topological_sort_def kahn_start_def Let_def split: sum.splits)

lemma kahn_loop_inv:
  "kahn_context ts E g tm \<Longrightarrow> kahn_inv ts E s \<Longrightarrow>
   \<exists>res ind'. kahn_loop g tm s = Inr res \<and> kahn_inv ts E (ind', [], res)"
proof (induction g tm s rule: kahn_loop.induct)
  case (1 g tm ind q out)
  show ?case
  proof (cases "q = []")
    case True
    with "1.prems" show ?thesis by (auto simp: kahn_loop.simps)
  next
    case False
    from kahn_step_inv [OF "1.prems" False] obtain ind' q' t where
      st: "kahn_step g tm (ind, q, out) = Inr (ind', q', out @ [t])"
      and inv': "kahn_inv ts E (ind', q', out @ [t])"
      by blast
    from "1.IH" [OF False st "1.prems"(1) inv'] st False show ?thesis
      by (simp add: kahn_loop.simps)
  qed
qed

lemma remaining_empty: "remaining E {} n = in_degree_of E n"
  by (simp add: remaining_def in_degree_of_def)

lemma kahn_start_inv:
  assumes ok: "project_graph_ok db project_id"
  defines "ts \<equiv> query_tasks db project_id"
    and "E \<equiv> edges_of (query_dependencies db project_id)"
  shows "\<exists>g tm s. kahn_start db project_id = Inr (g, tm, s) \<and> kahn_context ts E g tm
           \<and> kahn_inv ts E s \<and> snd (snd s) = []"
proof -
  let ?deps = "query_dependencies db project_id"
  let ?g0 = "dict_of_tasks (\<lambda>t. []::int list) ts" and ?i0 = "dict_of_tasks (\<lambda>t. 0::int) ts"
  let ?tm = "dict_of_tasks (\<lambda>t. t) ts"
  from ok have d: "distinct (map t_id ts)"
    and sc: "\<And>dep. dep \<in> set ?deps \<Longrightarrow> successor_task_id dep \<in> t_id ` set ts"
    by (auto simp: project_graph_ok_def ts_def)
  have pr: "\<And>dep. dep \<in> set ?deps \<Longrightarrow> predecessor_task_id dep \<in> t_id ` set ts"
    by (force simp: query_dependencies_def query_tasks_def ts_def list_ex_iff)
  have kg: "map fst ?g0 = map t_id ts" and ki: "map fst ?i0 = map t_id ts"
    using d by (simp_all add: keys_dict_of_tasks)
  then have sg: "fst ` set ?g0 = t_id ` set ts" and si: "fst ` set ?i0 = t_id ` set ts"
    by (metis list.set_map)+
  have "\<forall>dep\<in>set ?deps. predecessor_task_id dep \<in> fst ` set ?g0
          \<and> successor_task_id dep \<in> fst ` set ?i0"
    using pr sc sg si by simp
  from build_graph_in_degree_result [OF this] obtain g ind where
    b: "build_graph_in_degree ?deps (?g0, ?i0) = Inr (g, ind)"
    and ki': "map fst ind = map fst ?i0"
    and mg: "\<And>p. map_of g p = map_option (\<lambda>l. l @ successors_of E p) (map_of ?g0 p)"
    and mi: "\<And>n. map_of ind n = map_option (\<lambda>k. k + int (in_degree_of E n)) (map_of ?i0 n)"
    unfolding E_def by blast
  let ?q = "filter (\<lambda>tid. map_of ind tid = Some 0) (map fst ind)"
  have st: "kahn_start db project_id = Inr (g, ?tm, ind, ?q, [])"
    using b by (simp add: kahn_start_def ts_def)
  have mg': "\<And>t. t \<in> set ts \<Longrightarrow> map_of g (t_id t) = Some (successors_of E (t_id t))"
    using mg map_of_dict_of_tasks [OF d, of _ "\<lambda>t. []"] by simp
  have mi': "\<And>t. t \<in> set ts \<Longrightarrow> map_of ind (t_id t) = Some (int (in_degree_of E (t_id t)))"
    using mi map_of_dict_of_tasks [OF d, of _ "\<lambda>t. 0"] by simp
  have ed: "\<forall>e\<in>set E. fst e \<in> t_id ` set ts \<and> snd e \<in> t_id ` set ts"
    using pr sc by (auto simp: E_def edges_of_def)
  have ctx: "kahn_context ts E g ?tm"
    unfolding kahn_context_def using d ed mg' map_of_dict_of_tasks [OF d, of _ "\<lambda>t. t"]
    by simp
  have keys: "map fst ind = map t_id ts" using ki' ki by simp
  have "distinct ?q" using keys d by simp
  moreover have "set ?q = {n \<in> t_id ` set ts. remaining E {} n = 0}"
    using keys mi' by (auto simp: remaining_empty)
  moreover have "\<forall>n\<in>t_id ` set ts. map_of ind n = Some (int (remaining E {} n))"
    using mi' by (auto simp: remaining_empty)
  ultimately have "kahn_inv ts E (ind, ?q, [])"
    by (simp add: kahn_inv_def)
  with st ctx show ?thesis by auto
qed

lemma topological_sort_inv:
  assumes "project_graph_ok db project_id"
  shows "\<exists>res ind. topological_sort db project_id = Inr res
           \<and> kahn_inv (query_tasks db project_id) (edges_of (query_dependencies db project_id))
                (ind, [], res)"
proof -
  from kahn_start_inv [OF assms] obtain g tm s where
    s: "kahn_start db project_id = Inr (g, tm, s)"
    and ctx: "kahn_context (query_tasks db project_id)
                (edges_of (query_dependencies db project_id)) g tm"
    and inv: "kahn_inv (query_tasks db project_id)
                (edges_of (query_dependencies db project_id)) s"
    by blast
  from kahn_loop_inv [OF ctx inv] s show ?thesis
    by (auto simp: topological_sort_kahn_start)
qed



lemma kahn_final_all_placed:
  assumes inv: "kahn_inv ts E (ind, [], res)"
    and ed: "\<forall>e\<in>set E. fst e \<in> t_id ` set ts"
    and ac: "acyclic (set E)"
  shows "t_id ` set res = t_id ` set ts"
proof (rule ccontr)
  let ?P = "t_id ` set res"
  let ?U = "t_id ` set ts - ?P"
  assume "?P \<noteq> t_id ` set ts"
  moreover from inv have "?P \<subseteq> t_id ` set ts" by (auto simp: kahn_inv_def)
  ultimately obtain x where x: "x \<in> ?U" by auto
  from inv have none: "\<And>n. n \<in> ?U \<Longrightarrow> remaining E ?P n \<noteq> 0"
    by (auto simp: kahn_inv_def)
  have "wf (set E)" using ac by (simp add: finite_acyclic_wf)
  from wfE_min [OF this x] obtain z where z: "z \<in> ?U" and m: "\<And>y. (y, z) \<in> set E \<Longrightarrow> y \<notin> ?U"
    by blast
  have "\<forall>e\<in>set E. snd e = z \<longrightarrow> fst e \<in> ?P"
  proof (intro ballI impI)
    fix e assume e: "e \<in> set E" "snd e = z"
    then have "(fst e, z) \<in> set E" by (cases e) auto
    from m [OF this] ed e show "fst e \<in> ?P" by auto
  qed
  then have "remaining E ?P z = 0" by (simp add: remaining_zero_iff)
  with none [OF z] show False by simp
qed

lemma kahn_final_set:
  assumes inv: "kahn_inv ts E (ind, q, res)" and d: "distinct (map t_id ts)"
  shows "distinct res" and "set res \<subseteq> set ts" and "length res \<le> length ts"
    and "t_id ` set res = t_id ` set ts \<longleftrightarrow> set res = set ts"
    and "length res = length ts \<longleftrightarrow> set res = set ts"
proof -
  from inv have dr: "distinct (map t_id res)" and sub: "set res \<subseteq> set ts"
    by (auto simp: kahn_inv_def)
  from dr show dres: "distinct res" by (simp add: distinct_map)
  from sub show "set res \<subseteq> set ts" .
  from d have dts: "distinct ts" by (simp add: distinct_map)
  have inj: "inj_on t_id (set ts)" using d by (simp add: distinct_map)
  have "card (set res) \<le> card (set ts)" using sub by (simp add: card_mono)
  then show "length res \<le> length ts" using dres dts by (simp add: distinct_card)
  show "t_id ` set res = t_id ` set ts \<longleftrightarrow> set res = set ts"
    using inj sub by (metis inj_on_image_eq_iff subset_refl)
  show "length res = length ts \<longleftrightarrow> set res = set ts"
  proof
    assume "length res = length ts"
    then have "card (set res) = card (set ts)" using dres dts by (simp add: distinct_card)
    with sub show "set res = set ts" by (simp add: card_subset_eq)
  next
    assume "set res = set ts"
    then show "length res = length ts" using dres dts by (metis distinct_card)
  qed
qed

lemma kahn_reachable_inv:
  assumes ctx: "kahn_context ts E g tm" and i0: "kahn_inv ts E s0"
    and r: "kahn_reachable g tm s0 s"
  shows "kahn_inv ts E s"
  using r
proof (induction rule: kahn_reachable.induct)
  case start
  show ?case by (rule i0)
next
  case (step s s')
  obtain ind q out where s: "s = (ind, q, out)" by (cases s) auto
  with step have "q \<noteq> []" "kahn_inv ts E (ind, q, out)" by auto
  from kahn_step_inv [OF ctx this(2) this(1)] step.hyps(3) s show ?case by auto
qed

lemma kahn_loop_reachable:
  "kahn_reachable g tm s0 s \<Longrightarrow> kahn_loop g tm s = kahn_loop g tm s0"
proof (induction rule: kahn_reachable.induct)
  case start
  show ?case by simp
next
  case (step s s')
  obtain ind q out where s: "s = (ind, q, out)" by (cases s) auto
  with step.hyps have "kahn_loop g tm s = kahn_loop g tm s'"
    by (simp add: kahn_loop.simps)
  with step.IH show ?case by simp
qed

lemma edges_of_mem:
  "(\<forall>e\<in>set (edges_of deps). Q (fst e) (snd e))
     \<longleftrightarrow> (\<forall>d\<in>set deps. Q (predecessor_task_id d) (successor_task_id d))"
  by (auto simp: edges_of_def)

lemma project_graph_ok_edges:
  assumes "project_graph_ok db project_id"
  shows "\<forall>e\<in>set (edges_of (query_dependencies db project_id)).
           fst e \<in> t_id ` set (query_tasks db project_id)"
  by (force simp: edges_of_def query_dependencies_def query_tasks_def list_ex_iff)

text \<open>
  Claim C1.  On a project whose task ids are distinct and whose dependency rows join
  tasks of the project, if the dependency edges are acyclic then \<^verbatim>\<open>topological_sort\<close>
  returns a permutation of the project's tasks in which, for every dependency, the
  predecessor stands at a strictly smaller position than the successor.
\<close>

theorem topological_sort_acyclic:
  assumes ok: "project_graph_ok db project_id"
    and ac: "acyclic (project_edges db project_id)"
  shows "\<exists>sorted_tasks. topological_sort db project_id = Inr sorted_tasks
           \<and> mset sorted_tasks = mset (query_tasks db project_id)
           \<and> (\<forall>d\<in>set (query_dependencies db project_id).
                 \<exists>i j. i < j \<and> j < length sorted_tasks
                   \<and> t_id (sorted_tasks ! i) = predecessor_task_id d
                   \<and> t_id (sorted_tasks ! j) = successor_task_id d)"
proof -
  let ?ts = "query_tasks db project_id"
  let ?deps = "query_dependencies db project_id"
  let ?E = "edges_of ?deps"
  from topological_sort_inv [OF ok] obtain res ind where
    r: "topological_sort db project_id = Inr res" and inv: "kahn_inv ?ts ?E (ind, [], res)"
    by blast
  from ok have d: "distinct (map t_id ?ts)" by (simp add: project_graph_ok_def)
  from ac have ac': "acyclic (set ?E)" by (simp add: project_edges_def)
  from kahn_final_all_placed [OF inv project_graph_ok_edges [OF ok] ac']
  have ids: "t_id ` set res = t_id ` set ?ts" .
  with kahn_final_set(4) [OF inv d] have "set res = set ?ts" by simp
  moreover have "distinct res" by (rule kahn_final_set(1) [OF inv d])
  moreover have "distinct ?ts" using d by (simp add: distinct_map)
  ultimately have perm: "mset res = mset ?ts" by (simp add: set_eq_iff_mset_eq_distinct)
  have "\<forall>d\<in>set ?deps. \<exists>i j. i < j \<and> j < length res
                   \<and> t_id (res ! i) = predecessor_task_id d
                   \<and> t_id (res ! j) = successor_task_id d"
  proof
    fix dep assume dep: "dep \<in> set ?deps"
    from ok dep have "successor_task_id dep \<in> t_id ` set res"
      by (simp add: project_graph_ok_def ids)
    moreover from inv have "\<forall>e\<in>set ?E. snd e \<in> t_id ` set res
                             \<longrightarrow> precedes (fst e) (snd e) (map t_id res)"
      by (simp add: kahn_inv_def)
    moreover have "(predecessor_task_id dep, successor_task_id dep) \<in> set ?E"
      using dep by (auto simp: edges_of_def)
    ultimately have "precedes (predecessor_task_id dep) (successor_task_id dep) (map t_id res)"
      by fastforce
    then obtain i j where "i < j" "j < length res" "map t_id res ! i = predecessor_task_id dep"
      "map t_id res ! j = successor_task_id dep"
      unfolding precedes_def by auto
    then show "\<exists>i j. i < j \<and> j < length res \<and> t_id (res ! i) = predecessor_task_id dep
                   \<and> t_id (res ! j) = successor_task_id dep"
      by (intro exI [of _ i] exI [of _ j]) simp
  qed
  with r perm show ?thesis by blast
qed

lemma ex_db_ok: "project_graph_ok ex_db 1"
  by (simp add: project_graph_ok_def query_tasks_def query_dependencies_def ex_db_def
      ex_session_def ex_task1_def ex_task2_def ex_edge12_def)

lemma ex_db_edges: "project_edges ex_db 1 = {(1, 2)}"
  by (simp add: project_edges_def edges_of_def query_dependencies_def ex_db_def
      ex_session_def ex_task1_def ex_task2_def ex_edge12_def)

lemma ex_db_acyclic: "acyclic (project_edges ex_db 1)"
  by (simp add: ex_db_edges wf_acyclic)

theorem topological_sort_acyclic_witness:
  "project_graph_ok ex_db 1 \<and> acyclic (project_edges ex_db 1)
   \<and> topological_sort ex_db 1 = Inr [ex_task1, ex_task2]
   \<and> mset [ex_task1, ex_task2] = mset (query_tasks ex_db 1)
   \<and> query_dependencies ex_db 1 = [ex_edge12]
   \<and> (\<exists>i j. i < j \<and> j < length [ex_task1, ex_task2]
         \<and> t_id ([ex_task1, ex_task2] ! i) = predecessor_task_id ex_edge12
         \<and> t_id ([ex_task1, ex_task2] ! j) = successor_task_id ex_edge12)"
proof -
  have deps: "query_dependencies ex_db 1 = [ex_edge12]" by code_simp
  from topological_sort_acyclic [OF ex_db_ok ex_db_acyclic] ex_db_sorted deps
  show ?thesis using ex_db_ok ex_db_acyclic by simp
qed
subsection \<open>Priority of the task placed next\<close>

lemma ready_tasks_queue:
  assumes inv: "kahn_inv (query_tasks db project_id)
                  (edges_of (query_dependencies db project_id)) (ind, q, out)"
    and d: "distinct (map t_id (query_tasks db project_id))"
  shows "ready_tasks db project_id out = {t \<in> set (query_tasks db project_id). t_id t \<in> set q}"
proof -
  let ?ts = "query_tasks db project_id"
  let ?deps = "query_dependencies db project_id"
  let ?P = "t_id ` set out"
  from inv have sub: "set out \<subseteq> set ?ts"
    and qset: "set q = {n \<in> t_id ` set ?ts. n \<notin> ?P \<and> remaining (edges_of ?deps) ?P n = 0}"
    by (auto simp: kahn_inv_def)
  have inj: "inj_on t_id (set ?ts)" using d by (simp add: distinct_map)
  have placed: "\<And>t. t \<in> set ?ts \<Longrightarrow> t_id t \<in> ?P \<longleftrightarrow> t \<in> set out"
    using inj sub by (auto dest: inj_onD)
  have rem: "\<And>n. remaining (edges_of ?deps) ?P n = 0
               \<longleftrightarrow> (\<forall>dep\<in>set ?deps. successor_task_id dep = n \<longrightarrow> predecessor_task_id dep \<in> ?P)"
    by (auto simp: remaining_zero_iff edges_of_def)
  show ?thesis
    unfolding ready_tasks_def qset using placed rem by auto
qed

text \<open>
  Claim C8.  In every state that the loop of \<^verbatim>\<open>topological_sort\<close> reaches with a
  non-empty queue, the queue holds exactly the ready tasks (not yet placed, all
  predecessors placed), and the task appended next is a ready task whose priority is
  greatest among the ready tasks.
\<close>

theorem kahn_step_highest_priority:
  assumes ok: "project_graph_ok db project_id"
    and st: "kahn_start db project_id = Inr (graph, task_map, s0)"
    and re: "kahn_reachable graph task_map s0 (in_degree, queue, sorted_tasks)"
    and ne: "queue \<noteq> []"
  shows "topological_sort db project_id
           = kahn_loop graph task_map (in_degree, queue, sorted_tasks)
       \<and> set queue = t_id ` ready_tasks db project_id sorted_tasks
       \<and> (\<exists>in_degree' queue' t.
             kahn_step graph task_map (in_degree, queue, sorted_tasks)
               = Inr (in_degree', queue', sorted_tasks @ [t])
             \<and> t \<in> ready_tasks db project_id sorted_tasks
             \<and> (\<forall>t'\<in>ready_tasks db project_id sorted_tasks. priority t' \<le> priority t))"
proof -
  let ?ts = "query_tasks db project_id"
  let ?E = "edges_of (query_dependencies db project_id)"
  from kahn_start_inv [OF ok] st have ctx: "kahn_context ?ts ?E graph task_map"
    and i0: "kahn_inv ?ts ?E s0"
    by auto
  from kahn_reachable_inv [OF ctx i0 re]
  have inv: "kahn_inv ?ts ?E (in_degree, queue, sorted_tasks)" .
  from ok have d: "distinct (map t_id ?ts)" by (simp add: project_graph_ok_def)
  have rd: "ready_tasks db project_id sorted_tasks = {t \<in> set ?ts. t_id t \<in> set queue}"
    by (rule ready_tasks_queue [OF inv d])
  from inv have "set queue \<subseteq> t_id ` set ?ts" by (auto simp: kahn_inv_def)
  with rd have c2: "set queue = t_id ` ready_tasks db project_id sorted_tasks" by auto
  from kahn_step_inv [OF ctx inv ne] obtain ind' q' t where
    "kahn_step graph task_map (in_degree, queue, sorted_tasks) = Inr (ind', q', sorted_tasks @ [t])"
    "t \<in> set ?ts" "t_id t \<in> set queue"
    "\<forall>t'\<in>set ?ts. t_id t' \<in> set queue \<longrightarrow> priority t' \<le> priority t"
    by blast
  then have c3: "\<exists>in_degree' queue' t.
             kahn_step graph task_map (in_degree, queue, sorted_tasks)
               = Inr (in_degree', queue', sorted_tasks @ [t])
             \<and> t \<in> ready_tasks db project_id sorted_tasks
             \<and> (\<forall>t'\<in>ready_tasks db project_id sorted_tasks. priority t' \<le> priority t)"
    unfolding rd by blast
  have c1: "topological_sort db project_id
           = kahn_loop graph task_map (in_degree, queue, sorted_tasks)"
    using kahn_loop_reachable [OF re] st by (simp add: topological_sort_kahn_start)
  from c1 c2 c3 show ?thesis by blast
qed

lemma ex_db_ready_ok: "project_graph_ok ex_db_ready 1"
  by (simp add: project_graph_ok_def query_tasks_def query_dependencies_def ex_db_ready_def
      ex_session_def ex_task1_def ex_task3_def)

lemma ex_db_ready_start:
  "kahn_start ex_db_ready 1
     = Inr ([(3, []), (1, [])], [(3, ex_task3), (1, ex_task1)], [(3, 0), (1, 0)], [3, 1], [])"
  by code_simp

lemma ex_db_ready_step:
  "kahn_step [(3, []), (1, [])] [(3, ex_task3), (1, ex_task1)] ([(3, 0), (1, 0)], [3, 1], [])
     = Inr ([(3, 0), (1, 0)], [3], [ex_task1])"
  by code_simp

theorem kahn_step_highest_priority_witness:
  "project_graph_ok ex_db_ready 1
   \<and> kahn_start ex_db_ready 1
       = Inr ([(3, []), (1, [])], [(3, ex_task3), (1, ex_task1)], [(3, 0), (1, 0)], [3, 1], [])
   \<and> kahn_reachable [(3, []), (1, [])] [(3, ex_task3), (1, ex_task1)]
        ([(3, 0), (1, 0)], [3, 1], []) ([(3, 0), (1, 0)], [3, 1], [])
   \<and> [3, 1] \<noteq> ([] :: int list)
   \<and> kahn_step [(3, []), (1, [])] [(3, ex_task3), (1, ex_task1)] ([(3, 0), (1, 0)], [3, 1], [])
        = Inr ([(3, 0), (1, 0)], [3], [] @ [ex_task1])
   \<and> ex_task3 \<in> ready_tasks ex_db_ready 1 []
   \<and> ex_task1 \<in> ready_tasks ex_db_ready 1 []
   \<and> priority ex_task3 \<le> priority ex_task1"
proof -
  let ?g = "[(3, []), (1, [])] :: (int, int list) dict"
  let ?tm = "[(3, ex_task3), (1, ex_task1)]"
  let ?s = "([(3, 0), (1, 0)], [3, 1], []) :: (int, int) dict \<times> int list \<times> Task list"
  have re: "kahn_reachable ?g ?tm ?s ?s" by (rule kahn_reachable.start)
  have ne: "[3, 1] \<noteq> ([] :: int list)" by simp
  have r3: "ex_task3 \<in> ready_tasks ex_db_ready 1 []"
    by (simp add: ready_tasks_def query_tasks_def query_dependencies_def ex_db_ready_def
        ex_session_def ex_task1_def ex_task3_def)
  from kahn_step_highest_priority [OF ex_db_ready_ok ex_db_ready_start re ne]
  obtain t where "kahn_step ?g ?tm ?s \<in> {Inr (i, q, [] @ [t]) | i q. True}"
    and t: "t \<in> ready_tasks ex_db_ready 1 []"
    and p: "\<forall>t'\<in>ready_tasks ex_db_ready 1 []. priority t' \<le> priority t"
    by auto
  with ex_db_ready_step have "t = ex_task1" by simp
  with t p r3 have "ex_task1 \<in> ready_tasks ex_db_ready 1 []"
    "priority ex_task3 \<le> priority ex_task1"
    by auto
  with ex_db_ready_ok ex_db_ready_start re ne ex_db_ready_step r3 show ?thesis by simp
qed

section \<open>Depth-first search\<close>

lemma closed_reach:
  assumes "closed_under E B" and "(x, y) \<in> E\<^sup>*" and "x \<in> B"
  shows "y \<in> B"
  using assms(2,3,1) unfolding closed_under_def by (induction rule: rtrancl_induct) blast+

lemma closed_under_insert:
  assumes "closed_under E B" and "\<And>w. (u, w) \<in> E \<Longrightarrow> w \<in> B"
  shows "closed_under E (insert u B)"
  using assms unfolding closed_under_def by blast

lemma cycle_free_insert:
  assumes cf: "cycle_free E B" and cl: "closed_under E B"
    and uE: "\<And>w. (u, w) \<in> E \<Longrightarrow> w \<in> B" and u: "u \<notin> B"
  shows "cycle_free E (insert u B)"
proof -
  have "(u, u) \<notin> E\<^sup>+"
  proof
    assume "(u, u) \<in> E\<^sup>+"
    then obtain w where "(u, w) \<in> E" "(w, u) \<in> E\<^sup>*" by (blast dest: tranclD)
    with uE closed_reach [OF cl, of w u] have "u \<in> B" by blast
    with u show False by simp
  qed
  with cf show ?thesis unfolding cycle_free_def by blast
qed

lemma unbounded_dfs_case:
  assumes IH: "\<And>w. dfs_pre g w (insert u v, insert u r) \<and> w \<in> insert u r
                  \<and> set (graph_get g u) \<subseteq> set (graph_get g w)
             \<longrightarrow> dfs_post g (insert u v, insert u r) (set (graph_get g u))
                   (unbounded_dfs_neighbors g (graph_get g u) (insert u v, insert u r))"
    and pre: "dfs_pre g u (v, r)" and fresh: "u \<notin> v"
  shows "dfs_post g (v, r) {u} (unbounded_dfs g u (v, r))"
proof -
  let ?E = "graph_edges g"
  from pre have inv: "dfs_inv g (v, r)" and path: "\<forall>x\<in>r. (x, u) \<in> ?E\<^sup>*"
    by (simp_all add: dfs_pre_def)
  from inv have rv: "r \<subseteq> v" by (simp add: dfs_inv_def)
  with fresh have ur: "u \<notin> r" by blast
  have bl: "insert u v - insert u r = v - r" using fresh by blast
  have "dfs_inv g (insert u v, insert u r)"
    using inv rv unfolding dfs_inv_def fst_conv snd_conv bl by blast
  with path have "dfs_pre g u (insert u v, insert u r)"
    unfolding dfs_pre_def snd_conv by blast
  with IH [of u] have "dfs_post g (insert u v, insert u r) (set (graph_get g u))
                   (unbounded_dfs_neighbors g (graph_get g u) (insert u v, insert u r))"
    by blast
  then obtain found st' where
    res: "unbounded_dfs_neighbors g (graph_get g u) (insert u v, insert u r) = Inr (found, st')"
    and p1: "found \<longrightarrow> \<not> acyclic ?E"
    and p2: "\<not> found \<longrightarrow> insert u v \<subseteq> fst st' \<and> snd st' = insert u r \<and> dfs_inv g st'
                 \<and> set (graph_get g u) \<subseteq> fst st' - snd st'"
    unfolding dfs_post_def fst_conv snd_conv by blast
  show ?thesis
  proof (cases found)
    case True
    with res have "unbounded_dfs g u (v, r) = Inr (True, st')" by (simp add: unbounded_dfs.simps)
    moreover from True p1 have "\<not> acyclic ?E" by simp
    ultimately show ?thesis unfolding dfs_post_def by blast
  next
    case False
    obtain v' r' where st': "st' = (v', r')" by (cases st') blast
    from p2 False have p3: "insert u v \<subseteq> fst st' \<and> snd st' = insert u r \<and> dfs_inv g st'
                 \<and> set (graph_get g u) \<subseteq> fst st' - snd st'"
      by blast
    from p3 have sub: "insert u v \<subseteq> v'" and r': "r' = insert u r"
      and inv': "dfs_inv g (v', r')" and succs: "set (graph_get g u) \<subseteq> v' - r'"
      unfolding st' fst_conv snd_conv by blast+
    have dres: "unbounded_dfs g u (v, r) = Inr (False, v', r)"
      using res False st' r' ur by (simp add: unbounded_dfs.simps)
    let ?B = "v' - r'"
    from inv' have closed: "closed_under ?E ?B" and nocyc: "cycle_free ?E ?B"
      and r'v': "r' \<subseteq> v'"
      by (simp_all add: dfs_inv_def)
    have newB: "v' - r = insert u ?B" using r' ur sub by blast
    have uE: "\<And>w. (u, w) \<in> ?E \<Longrightarrow> w \<in> ?B" using succs by (auto simp: graph_edges_def)
    have uB: "u \<notin> ?B" using r' by blast
    have c2: "closed_under ?E (v' - r)"
      unfolding newB using closed uE by (rule closed_under_insert)
    have c3: "cycle_free ?E (v' - r)"
      unfolding newB using nocyc closed uE uB by (rule cycle_free_insert)
    have "r \<subseteq> v'" using r'v' r' by blast
    with c2 c3 have "dfs_inv g (v', r)" by (simp add: dfs_inv_def)
    moreover have "v \<subseteq> v'" "u \<in> v' - r" using sub ur by blast+
    ultimately have "fst (v, r) \<subseteq> fst (v', r) \<and> snd (v', r) = snd (v, r) \<and> dfs_inv g (v', r)
                       \<and> {u} \<subseteq> fst (v', r) - snd (v', r)"
      by simp
    with dres show ?thesis unfolding dfs_post_def by blast
  qed
qed

lemma unbounded_dfs_neighbors_nil:
  assumes "dfs_pre g u st"
  shows "dfs_post g st (set []) (unbounded_dfs_neighbors g [] st)"
proof -
  from assms have "dfs_inv g st" by (simp add: dfs_pre_def)
  then have "fst st \<subseteq> fst st \<and> snd st = snd st \<and> dfs_inv g st \<and> set [] \<subseteq> fst st - snd st"
    by simp
  moreover have "unbounded_dfs_neighbors g [] st = Inr (False, st)" by (simp add: unbounded_dfs_neighbors.simps)
  ultimately show ?thesis unfolding dfs_post_def by blast
qed

lemma unbounded_dfs_neighbors_cons:
  assumes IH1: "n \<notin> v \<Longrightarrow> dfs_pre g n (v, r) \<Longrightarrow> dfs_post g (v, r) {n} (unbounded_dfs g n (v, r))"
    and IH2: "\<And>st'. n \<notin> v \<Longrightarrow> unbounded_dfs g n (v, r) = Inr (False, st') \<Longrightarrow> dfs_pre g u st' \<Longrightarrow>
                u \<in> snd st' \<Longrightarrow> dfs_post g st' (set ns) (unbounded_dfs_neighbors g ns st')"
    and IH3: "n \<in> v \<Longrightarrow> n \<notin> r \<Longrightarrow> dfs_post g (v, r) (set ns) (unbounded_dfs_neighbors g ns (v, r))"
    and pre: "dfs_pre g u (v, r)" and ur: "u \<in> r"
    and sub: "set (n # ns) \<subseteq> set (graph_get g u)"
  shows "dfs_post g (v, r) (set (n # ns)) (unbounded_dfs_neighbors g (n # ns) (v, r))"
proof -
  let ?E = "graph_edges g"
  from pre have inv: "dfs_inv g (v, r)" and path: "\<forall>x\<in>r. (x, u) \<in> ?E\<^sup>*"
    by (simp_all add: dfs_pre_def)
  from sub have un: "(u, n) \<in> ?E" by (simp add: graph_edges_def)
  show ?thesis
  proof (cases "n \<in> v")
    case False
    have "\<forall>x\<in>r. (x, n) \<in> ?E\<^sup>*"
      using path un by (blast intro: rtrancl_into_rtrancl)
    with inv have "dfs_pre g n (v, r)" unfolding dfs_pre_def snd_conv by blast
    from IH1 [OF False this] obtain found st1 where
      res: "unbounded_dfs g n (v, r) = Inr (found, st1)"
      and p1: "found \<longrightarrow> \<not> acyclic ?E"
      and p2: "\<not> found \<longrightarrow> v \<subseteq> fst st1 \<and> snd st1 = r \<and> dfs_inv g st1 \<and> {n} \<subseteq> fst st1 - snd st1"
      unfolding dfs_post_def fst_conv snd_conv by blast
    show ?thesis
    proof (cases found)
      case True
      with res False have "unbounded_dfs_neighbors g (n # ns) (v, r) = Inr (True, st1)"
        by (simp add: unbounded_dfs_neighbors.simps)
      moreover from True p1 have "\<not> acyclic ?E" by simp
      ultimately show ?thesis unfolding dfs_post_def by blast
    next
      case nf: False
      with p2 have q: "v \<subseteq> fst st1" "snd st1 = r" "dfs_inv g st1" "{n} \<subseteq> fst st1 - snd st1"
        by blast+
      from res nf False have eq: "unbounded_dfs_neighbors g (n # ns) (v, r) = unbounded_dfs_neighbors g ns st1"
        by (simp add: unbounded_dfs_neighbors.simps)
      have "dfs_pre g u st1" using q(2,3) path unfolding dfs_pre_def by blast
      moreover have "u \<in> snd st1" using q(2) ur by simp
      moreover from res nf have "unbounded_dfs g n (v, r) = Inr (False, st1)" by simp
      ultimately have "dfs_post g st1 (set ns) (unbounded_dfs_neighbors g ns st1)"
        using IH2 [OF False] by blast
      then obtain found2 st2 where
        res2: "unbounded_dfs_neighbors g ns st1 = Inr (found2, st2)"
        and s1: "found2 \<longrightarrow> \<not> acyclic ?E"
        and s2: "\<not> found2 \<longrightarrow> fst st1 \<subseteq> fst st2 \<and> snd st2 = snd st1 \<and> dfs_inv g st2
                   \<and> set ns \<subseteq> fst st2 - snd st2"
        unfolding dfs_post_def by blast
      have "\<not> found2 \<longrightarrow> fst (v, r) \<subseteq> fst st2 \<and> snd st2 = snd (v, r) \<and> dfs_inv g st2
                   \<and> set (n # ns) \<subseteq> fst st2 - snd st2"
      proof
        assume "\<not> found2"
        with s2 have t: "fst st1 \<subseteq> fst st2" "snd st2 = snd st1" "dfs_inv g st2"
          "set ns \<subseteq> fst st2 - snd st2"
          by blast+
        from q(4) t(1,2) have "n \<in> fst st2 - snd st2" by auto
        with t q(1,2) show "fst (v, r) \<subseteq> fst st2 \<and> snd st2 = snd (v, r) \<and> dfs_inv g st2
                   \<and> set (n # ns) \<subseteq> fst st2 - snd st2"
          by auto
      qed
      with res2 s1 eq show ?thesis unfolding dfs_post_def by metis
    qed
  next
    case True
    show ?thesis
    proof (cases "n \<in> r")
      case nr: True
      with path have "(n, u) \<in> ?E\<^sup>*" by blast
      from this un have "(n, n) \<in> ?E\<^sup>+" by (rule rtrancl_into_trancl1)
      then have "\<not> acyclic ?E" unfolding acyclic_def by blast
      moreover from True nr have "unbounded_dfs_neighbors g (n # ns) (v, r) = Inr (True, v, r)"
        by (simp add: unbounded_dfs_neighbors.simps)
      ultimately show ?thesis unfolding dfs_post_def by blast
    next
      case nr: False
      from True nr have eq: "unbounded_dfs_neighbors g (n # ns) (v, r) = unbounded_dfs_neighbors g ns (v, r)"
        by (simp add: unbounded_dfs_neighbors.simps)
      from IH3 [OF True nr] obtain found2 st2 where
        res2: "unbounded_dfs_neighbors g ns (v, r) = Inr (found2, st2)"
        and s1: "found2 \<longrightarrow> \<not> acyclic ?E"
        and s2: "\<not> found2 \<longrightarrow> fst (v, r) \<subseteq> fst st2 \<and> snd st2 = snd (v, r) \<and> dfs_inv g st2
                   \<and> set ns \<subseteq> fst st2 - snd st2"
        unfolding dfs_post_def by blast
      have "\<not> found2 \<longrightarrow> fst (v, r) \<subseteq> fst st2 \<and> snd st2 = snd (v, r) \<and> dfs_inv g st2
                   \<and> set (n # ns) \<subseteq> fst st2 - snd st2"
      proof
        assume "\<not> found2"
        with s2 have t: "fst (v, r) \<subseteq> fst st2" "snd st2 = snd (v, r)" "dfs_inv g st2"
          "set ns \<subseteq> fst st2 - snd st2"
          by blast+
        from True nr t(1,2) have "n \<in> fst st2 - snd st2" by auto
        with t show "fst (v, r) \<subseteq> fst st2 \<and> snd st2 = snd (v, r) \<and> dfs_inv g st2
                   \<and> set (n # ns) \<subseteq> fst st2 - snd st2"
          by auto
      qed
      with res2 s1 eq show ?thesis unfolding dfs_post_def by metis
    qed
  qed
qed

lemma unbounded_dfs_correct:
  "dfs_pre g u st \<and> u \<notin> fst st \<longrightarrow> dfs_post g st {u} (unbounded_dfs g u st)"
  "\<forall>w. dfs_pre g' w st2 \<and> w \<in> snd st2 \<and> set ns \<subseteq> set (graph_get g' w)
       \<longrightarrow> dfs_post g' st2 (set ns) (unbounded_dfs_neighbors g' ns st2)"
proof (induction g u st and g' ns st2 rule: unbounded_dfs_unbounded_dfs_neighbors.induct)
  case (1 graph node visited rec_stack)
  show ?case
  proof
    assume a: "dfs_pre graph node (visited, rec_stack) \<and> node \<notin> fst (visited, rec_stack)"
    then have pre: "dfs_pre graph node (visited, rec_stack)" and fresh: "node \<notin> visited"
      by simp_all
    from "1.IH" have IH: "\<And>w. dfs_pre graph w (insert node visited, insert node rec_stack)
                  \<and> w \<in> insert node rec_stack
                  \<and> set (graph_get graph node) \<subseteq> set (graph_get graph w)
             \<longrightarrow> dfs_post graph (insert node visited, insert node rec_stack)
                   (set (graph_get graph node))
                   (unbounded_dfs_neighbors graph (graph_get graph node)
                      (insert node visited, insert node rec_stack))"
      unfolding snd_conv by blast
    show "dfs_post graph (visited, rec_stack) {node} (unbounded_dfs graph node (visited, rec_stack))"
      by (rule unbounded_dfs_case [OF IH pre fresh])
  qed
next
  case (2 graph st)
  show ?case using unbounded_dfs_neighbors_nil by blast
next
  case (3 graph neighbor ns visited rec_stack)
  show ?case
  proof (intro allI impI)
    fix w
    assume a: "dfs_pre graph w (visited, rec_stack) \<and> w \<in> snd (visited, rec_stack)
               \<and> set (neighbor # ns) \<subseteq> set (graph_get graph w)"
    then have pre: "dfs_pre graph w (visited, rec_stack)" and wr: "w \<in> rec_stack"
      and sub: "set (neighbor # ns) \<subseteq> set (graph_get graph w)"
      by simp_all
    from sub have subns: "set ns \<subseteq> set (graph_get graph w)" by simp
    have IH1: "neighbor \<notin> visited \<Longrightarrow> dfs_pre graph neighbor (visited, rec_stack) \<Longrightarrow>
               dfs_post graph (visited, rec_stack) {neighbor}
                 (unbounded_dfs graph neighbor (visited, rec_stack))"
      using "3.IH"(1) unfolding fst_conv by blast
    have IH2: "\<And>st'. neighbor \<notin> visited \<Longrightarrow>
                 unbounded_dfs graph neighbor (visited, rec_stack) = Inr (False, st') \<Longrightarrow>
                 dfs_pre graph w st' \<Longrightarrow> w \<in> snd st' \<Longrightarrow>
                 dfs_post graph st' (set ns) (unbounded_dfs_neighbors graph ns st')"
      using "3.IH"(2) subns by blast
    have IH3: "neighbor \<in> visited \<Longrightarrow> neighbor \<notin> rec_stack \<Longrightarrow>
               dfs_post graph (visited, rec_stack) (set ns)
                 (unbounded_dfs_neighbors graph ns (visited, rec_stack))"
      using "3.IH"(3) pre wr subns unfolding snd_conv by blast
    show "dfs_post graph (visited, rec_stack) (set (neighbor # ns))
            (unbounded_dfs_neighbors graph (neighbor # ns) (visited, rec_stack))"
      by (rule unbounded_dfs_neighbors_cons [OF IH1 IH2 IH3 pre wr sub])
  qed
qed

lemma dfs_inv_loop_level:
  "dfs_inv g (v, {}) \<Longrightarrow> dfs_pre g u (v, {})"
  by (simp add: dfs_pre_def)

lemma unbounded_dfs_all_correct:
  assumes "dfs_inv g (v, {})"
    and "\<forall>x. x \<notin> v \<and> x \<notin> set ks \<longrightarrow> graph_get g x = []"
  shows "unbounded_dfs_all g ks (v, {}) = Inr (\<not> acyclic (graph_edges g))"
  using assms
proof (induction ks arbitrary: v)
  case Nil
  let ?E = "graph_edges g"
  from Nil.prems(1) have cf: "cycle_free ?E v" by (simp add: dfs_inv_def)
  have "acyclic ?E"
    unfolding acyclic_def
  proof (intro allI notI)
    fix x assume c: "(x, x) \<in> ?E\<^sup>+"
    then obtain w where "(x, w) \<in> ?E" by (blast dest: tranclD)
    then have "graph_get g x \<noteq> []" by (auto simp: graph_edges_def)
    with Nil.prems(2) have "x \<in> v" by auto
    with cf c show False unfolding cycle_free_def by blast
  qed
  then show ?case by simp
next
  case (Cons k ks)
  show ?case
  proof (cases "k \<in> v")
    case True
    with Cons.prems(2) have "\<forall>x. x \<notin> v \<and> x \<notin> set ks \<longrightarrow> graph_get g x = []" by auto
    from Cons.IH [OF Cons.prems(1) this] True show ?thesis by simp
  next
    case False
    from unbounded_dfs_correct(1) [of g k "(v, {})"] dfs_inv_loop_level [OF Cons.prems(1), of k] False
    have "dfs_post g (v, {}) {k} (unbounded_dfs g k (v, {}))" by simp
    then obtain found st' where
      res: "unbounded_dfs g k (v, {}) = Inr (found, st')"
      and p1: "found \<longrightarrow> \<not> acyclic (graph_edges g)"
      and p2: "\<not> found \<longrightarrow> v \<subseteq> fst st' \<and> snd st' = {} \<and> dfs_inv g st' \<and> {k} \<subseteq> fst st' - snd st'"
      unfolding dfs_post_def fst_conv snd_conv by blast
    show ?thesis
    proof (cases found)
      case True
      with res p1 False show ?thesis by simp
    next
      case nf: False
      obtain v' r' where st': "st' = (v', r')" by (cases st') blast
      from p2 nf st' have q: "v \<subseteq> v'" "r' = {}" "dfs_inv g (v', {})" "k \<in> v'" by auto
      from Cons.prems(2) q(1,4) have "\<forall>x. x \<notin> v' \<and> x \<notin> set ks \<longrightarrow> graph_get g x = []"
        by auto
      from Cons.IH [OF q(3) this] res nf st' q(2) False show ?thesis by simp
    qed
  qed
qed

lemma build_graph_result:
  assumes "\<forall>d\<in>set deps. predecessor_task_id d \<in> fst ` set g"
  shows "\<exists>g'. build_graph deps g = Inr g' \<and> map fst g' = map fst g
           \<and> (\<forall>p. map_of g' p = map_option (\<lambda>l. l @ successors_of (edges_of deps) p) (map_of g p))"
  using assms
proof (induction deps arbitrary: g)
  case Nil
  show ?case
    by (simp add: edges_of_def successors_of_def option.map_ident)
next
  case (Cons dep deps)
  let ?p = "predecessor_task_id dep" and ?s = "successor_task_id dep"
  from Cons.prems obtain succs where sc: "map_of g ?p = Some succs"
    by (cases "map_of g ?p") (auto simp: map_of_None_keys)
  let ?g = "AList.update ?p (succs @ [?s]) g"
  from Cons.prems have kg: "map fst ?g = map fst g"
    by (simp add: keys_update_present)
  then have sg: "fst ` set ?g = fst ` set g" by (metis list.set_map)
  with Cons.prems have "\<forall>d\<in>set deps. predecessor_task_id d \<in> fst ` set ?g" by simp
  from Cons.IH [OF this] obtain g' where
    r: "build_graph deps ?g = Inr g'" and k: "map fst g' = map fst ?g"
    and mg: "\<forall>p. map_of g' p = map_option (\<lambda>l. l @ successors_of (edges_of deps) p) (map_of ?g p)"
    by blast
  have "build_graph (dep # deps) g = Inr g'" using r sc by simp
  moreover have "\<forall>p. map_of g' p
       = map_option (\<lambda>l. l @ successors_of (edges_of (dep # deps)) p) (map_of g p)"
    using mg sc by (auto simp: update_conv' edges_of_def successors_of_def)
  ultimately show ?case using k kg by simp
qed

lemma map_of_fold_update_const:
  "map_of (fold (\<lambda>t d. AList.update (t_id t) c d) ts acc) p
     = (if p \<in> t_id ` set ts then Some c else map_of acc p)"
  by (induction ts arbitrary: acc) (auto simp: update_conv')

lemma map_of_dict_of_tasks_const:
  "map_of (dict_of_tasks (\<lambda>t. c) ts) p = (if p \<in> t_id ` set ts then Some c else None)"
  by (simp add: dict_of_tasks_def map_of_fold_update_const)

lemma query_dependencies_pred:
  "d \<in> set (query_dependencies db project_id)
     \<Longrightarrow> predecessor_task_id d \<in> t_id ` set (query_tasks db project_id)"
  by (force simp: query_dependencies_def query_tasks_def list_ex_iff)

text \<open>
  The adjacency dictionary that \<^verbatim>\<open>has_cycle\<close> builds: its keys are those of the initial
  dictionary, and it holds the successors of every node in row order.
\<close>

lemma project_graph_built:
  "\<exists>g. build_graph (query_dependencies db project_id)
          (dict_of_tasks (\<lambda>t. []) (query_tasks db project_id)) = Inr g
       \<and> map fst g = map fst (dict_of_tasks (\<lambda>t. []::int list) (query_tasks db project_id))
       \<and> set (map fst g) = t_id ` set (query_tasks db project_id)
       \<and> (\<forall>p. graph_get g p = successors_of (edges_of (query_dependencies db project_id)) p)
       \<and> graph_edges g = project_edges db project_id
       \<and> (\<forall>x. x \<notin> set (map fst g) \<longrightarrow> graph_get g x = [])"
proof -
  let ?ts = "query_tasks db project_id"
  let ?deps = "query_dependencies db project_id"
  let ?g0 = "dict_of_tasks (\<lambda>t. []::int list) ?ts"
  have keys0: "fst ` set ?g0 = t_id ` set ?ts"
  proof -
    have "\<And>p. p \<in> fst ` set ?g0 \<longleftrightarrow> p \<in> t_id ` set ?ts"
      using map_of_dict_of_tasks_const [of "[]::int list" ?ts]
      by (metis map_of_None_keys option.distinct(1))
    then show ?thesis by blast
  qed
  have "\<forall>d\<in>set ?deps. predecessor_task_id d \<in> fst ` set ?g0"
    using query_dependencies_pred keys0 by blast
  from build_graph_result [OF this] obtain g where
    b: "build_graph ?deps ?g0 = Inr g" and k: "map fst g = map fst ?g0"
    and mg: "\<And>p. map_of g p = map_option (\<lambda>l. l @ successors_of (edges_of ?deps) p) (map_of ?g0 p)"
    by blast
  have gg: "\<And>p. graph_get g p = successors_of (edges_of ?deps) p"
  proof -
    fix p
    show "graph_get g p = successors_of (edges_of ?deps) p"
    proof (cases "p \<in> t_id ` set ?ts")
      case True
      then show ?thesis by (simp add: graph_get_def mg map_of_dict_of_tasks_const)
    next
      case False
      with query_dependencies_pred [of _ db project_id]
      have "\<forall>d\<in>set ?deps. predecessor_task_id d \<noteq> p" by blast
      then have "successors_of (edges_of ?deps) p = []"
        by (auto simp: successors_of_def edges_of_def filter_empty_conv)
      with False show ?thesis by (simp add: graph_get_def mg map_of_dict_of_tasks_const)
    qed
  qed
  have edges: "graph_edges g = project_edges db project_id"
    unfolding graph_edges_def project_edges_def gg
    by (force simp: successors_of_def)
  have "\<forall>x. x \<notin> set (map fst g) \<longrightarrow> graph_get g x = []"
  proof (intro allI impI)
    fix x assume "x \<notin> set (map fst g)"
    then have "x \<notin> fst ` set g" by simp
    then have "map_of g x = None" by (simp add: map_of_None_keys)
    then show "graph_get g x = []" by (simp add: graph_get_def)
  qed
  moreover from k keys0 have "set (map fst g) = t_id ` set ?ts" by simp
  ultimately show ?thesis using b k gg edges by blast
qed

section \<open>The search within the recursion limit\<close>

text \<open>
  The search of the program returns what the search without the limit returns, or
  raises \<^verbatim>\<open>RecursionError\<close>.
\<close>

lemma dfs_agrees:
  "dfs f g u st = unbounded_dfs g u st \<or> dfs f g u st = Inl RecursionError"
  "dfs_neighbors f g ns st = unbounded_dfs_neighbors g ns st
     \<or> dfs_neighbors f g ns st = Inl RecursionError"
proof (induction f g u st and f g ns st rule: dfs_dfs_neighbors.induct)
  case (1 frames graph node visited rec_stack)
  show ?case
  proof (cases "frames = 0")
    case True
    then show ?thesis by (simp add: dfs.simps)
  next
    case False
    from "1.IH" [OF False] False show ?thesis
      by (auto simp: dfs.simps unbounded_dfs.simps)
  qed
next
  case (2 frames graph st)
  show ?case by (simp add: dfs_neighbors.simps unbounded_dfs_neighbors.simps)
next
  case (3 frames graph neighbor ns visited rec_stack)
  show ?case
  proof (cases "neighbor \<notin> visited")
    case True
    let ?r = "dfs frames graph neighbor (visited, rec_stack)"
    from "3.IH"(1) [OF True]
    consider (err) "?r = Inl RecursionError"
      | (same) "?r = unbounded_dfs graph neighbor (visited, rec_stack)" by blast
    then show ?thesis
    proof cases
      case err
      with True show ?thesis by (simp add: dfs_neighbors.simps)
    next
      case same
      show ?thesis
      proof (cases ?r)
        case (Inl e)
        with same have "unbounded_dfs graph neighbor (visited, rec_stack) = Inl e" by simp
        with Inl True show ?thesis
          by (simp add: dfs_neighbors.simps unbounded_dfs_neighbors.simps)
      next
        case (Inr p)
        obtain b st' where p: "p = (b, st')" by (cases p) blast
        show ?thesis
        proof (cases b)
          case True
          from same Inr p have "unbounded_dfs graph neighbor (visited, rec_stack) = Inr (b, st')"
            by simp
          with Inr p True \<open>neighbor \<notin> visited\<close> show ?thesis
            by (simp add: dfs_neighbors.simps unbounded_dfs_neighbors.simps)
        next
          case False
          from "3.IH"(2) [OF \<open>neighbor \<notin> visited\<close> Inr [unfolded p] _ ] False
          have "dfs_neighbors frames graph ns st' = unbounded_dfs_neighbors graph ns st'
                 \<or> dfs_neighbors frames graph ns st' = Inl RecursionError" by simp
          moreover from same Inr p
          have "unbounded_dfs graph neighbor (visited, rec_stack) = Inr (b, st')" by simp
          ultimately show ?thesis using Inr p False \<open>neighbor \<notin> visited\<close>
            by (auto simp: dfs_neighbors.simps unbounded_dfs_neighbors.simps)
        qed
      qed
    qed
  next
    case False
    show ?thesis
    proof (cases "neighbor \<in> rec_stack")
      case True
      with False show ?thesis
        by (simp add: dfs_neighbors.simps unbounded_dfs_neighbors.simps)
    next
      case nr: False
      from "3.IH"(3) [OF False nr] False nr show ?thesis
        by (auto simp: dfs_neighbors.simps unbounded_dfs_neighbors.simps)
    qed
  qed
qed

lemma dfs_visited_mono:
  "dfs f g u st = Inr (b, st') \<Longrightarrow> fst st \<subseteq> fst st'"
  "dfs_neighbors f g ns st = Inr (b, st') \<Longrightarrow> fst st \<subseteq> fst st'"
proof (induction f g u st and f g ns st arbitrary: b st' and b st'
       rule: dfs_dfs_neighbors.induct)
  case (1 frames graph node visited rec_stack)
  from "1.prems" have f: "frames \<noteq> 0" by (cases "frames = 0") (simp_all add: dfs.simps)
  let ?r = "dfs_neighbors (frames - 1) graph (graph_get graph node)
              (insert node visited, insert node rec_stack)"
  from "1.prems" f obtain b1 v1 r1 where r: "?r = Inr (b1, v1, r1)"
    by (cases ?r) (auto simp: dfs.simps)
  from "1.IH" [OF f r] have "insert node visited \<subseteq> v1" by simp
  moreover from "1.prems" f r have "fst st' = v1"
    by (cases b1) (auto simp: dfs.simps split: if_splits)
  ultimately show ?case by auto
next
  case (2 frames graph st)
  then show ?case by (simp add: dfs_neighbors.simps)
next
  case (3 frames graph neighbor ns visited rec_stack)
  show ?case
  proof (cases "neighbor \<notin> visited")
    case True
    let ?r = "dfs frames graph neighbor (visited, rec_stack)"
    from "3.prems" True obtain b1 st1 where r: "?r = Inr (b1, st1)"
      by (cases ?r) (auto simp: dfs_neighbors.simps)
    from "3.IH"(1) [OF True r] have m: "visited \<subseteq> fst st1" by simp
    show ?thesis
    proof (cases b1)
      case True
      with "3.prems" r \<open>neighbor \<notin> visited\<close> have "st' = st1"
        by (simp add: dfs_neighbors.simps)
      with m show ?thesis by simp
    next
      case False
      with "3.prems" r \<open>neighbor \<notin> visited\<close>
      have e: "dfs_neighbors frames graph ns st1 = Inr (b, st')"
        by (simp add: dfs_neighbors.simps)
      have "fst st1 \<subseteq> fst st'"
        using "3.IH"(2) [OF \<open>neighbor \<notin> visited\<close> r _ _ e] False by simp
      with m show ?thesis by auto
    qed
  next
    case False
    show ?thesis
    proof (cases "neighbor \<in> rec_stack")
      case True
      with "3.prems" False show ?thesis
        by (simp add: dfs_neighbors.simps)
    next
      case nr: False
      with "3.prems" False
      have e: "dfs_neighbors frames graph ns (visited, rec_stack) = Inr (b, st')"
        by (simp add: dfs_neighbors.simps)
      show ?thesis using "3.IH"(3) [OF False nr e] by simp
    qed
  qed
qed

text \<open>
  Frames enough for every node that is still unvisited in a finite set of nodes closed
  under the edges are enough for the search from a node of the set: each nested call
  visits one more of them.
\<close>

lemma closed_under_graph_get:
  "closed_under (graph_edges g) N \<Longrightarrow> x \<in> N \<Longrightarrow> set (graph_get g x) \<subseteq> N"
  unfolding closed_under_def graph_edges_def by blast

lemma dfs_enough_frames:
  "finite N \<Longrightarrow> closed_under (graph_edges g) N \<Longrightarrow> u \<in> N \<Longrightarrow> u \<notin> fst st
     \<Longrightarrow> card (N - fst st) \<le> f \<Longrightarrow> dfs f g u st \<noteq> Inl RecursionError"
  "finite N \<Longrightarrow> closed_under (graph_edges g) N \<Longrightarrow> set ns \<subseteq> N
     \<Longrightarrow> card (N - fst st) \<le> f \<Longrightarrow> dfs_neighbors f g ns st \<noteq> Inl RecursionError"
proof (induction f g u st and f g ns st rule: dfs_dfs_neighbors.induct)
  case (1 frames graph node visited rec_stack)
  from "1.prems" have mem: "node \<in> N - visited" by simp
  with "1.prems"(1) have "0 < card (N - visited)"
    by (metis card_gt_0_iff finite_Diff empty_iff)
  with "1.prems"(5) have f: "frames \<noteq> 0" by simp
  have "N - insert node visited = (N - visited) - {node}" by blast
  with mem have "card (N - insert node visited) = card (N - visited) - 1"
    by (simp add: card_Diff_singleton)
  with "1.prems"(5) have c: "card (N - fst (insert node visited, insert node rec_stack)) \<le> frames - 1"
    by simp
  from "1.prems"(2,3) have s: "set (graph_get graph node) \<subseteq> N"
    by (rule closed_under_graph_get)
  let ?r = "dfs_neighbors (frames - 1) graph (graph_get graph node)
              (insert node visited, insert node rec_stack)"
  from "1.IH"(1) [OF f "1.prems"(1,2) s c] have n: "?r \<noteq> Inl RecursionError" .
  show ?case
  proof (cases ?r)
    case (Inl e)
    with n f show ?thesis by (simp add: dfs.simps)
  next
    case (Inr p)
    with f show ?thesis
      by (cases p) (auto simp: dfs.simps split: bool.splits)
  qed
next
  case (2 frames graph st)
  show ?case by (simp add: dfs_neighbors.simps)
next
  case (3 frames graph neighbor ns visited rec_stack)
  from "3.prems"(3) have nN: "neighbor \<in> N" and sN: "set ns \<subseteq> N" by simp_all
  show ?case
  proof (cases "neighbor \<notin> visited")
    case True
    let ?r = "dfs frames graph neighbor (visited, rec_stack)"
    from True have nv: "neighbor \<notin> fst (visited, rec_stack)" by simp
    from "3.IH"(1) [OF True "3.prems"(1,2) nN nv "3.prems"(4)]
    have n: "?r \<noteq> Inl RecursionError" .
    show ?thesis
    proof (cases ?r)
      case (Inl e)
      with n True show ?thesis by (simp add: dfs_neighbors.simps)
    next
      case (Inr p)
      obtain b st' where p: "p = (b, st')" by (cases p) blast
      show ?thesis
      proof (cases b)
        case True
        with Inr p \<open>neighbor \<notin> visited\<close> show ?thesis by (simp add: dfs_neighbors.simps)
      next
        case False
        from dfs_visited_mono(1) [OF Inr [unfolded p]] have "visited \<subseteq> fst st'" by simp
        then have "N - fst st' \<subseteq> N - visited" by blast
        with "3.prems"(1) have "card (N - fst st') \<le> card (N - visited)"
          by (simp add: card_mono)
        with "3.prems"(4) have c: "card (N - fst st') \<le> frames" by simp
        from "3.IH"(2) [OF \<open>neighbor \<notin> visited\<close> Inr [unfolded p] _ _ "3.prems"(1,2) sN c] False
        have "dfs_neighbors frames graph ns st' \<noteq> Inl RecursionError" by simp
        with Inr p False \<open>neighbor \<notin> visited\<close> show ?thesis by (simp add: dfs_neighbors.simps)
      qed
    qed
  next
    case False
    show ?thesis
    proof (cases "neighbor \<in> rec_stack")
      case True
      with False show ?thesis by (simp add: dfs_neighbors.simps)
    next
      case nr: False
      from "3.IH"(3) [OF False nr "3.prems"(1,2) sN "3.prems"(4)] False nr show ?thesis
        by (simp add: dfs_neighbors.simps)
    qed
  qed
qed

lemma dfs_all_agrees:
  "dfs_all f g ks st = unbounded_dfs_all g ks st \<or> dfs_all f g ks st = Inl RecursionError"
proof (induction ks arbitrary: st)
  case Nil
  show ?case by simp
next
  case (Cons k ks)
  obtain v r where st: "st = (v, r)" by (cases st) blast
  show ?case
  proof (cases "k \<in> v")
    case True
    with Cons.IH [of st] st show ?thesis by simp
  next
    case False
    from dfs_agrees(1) [of f g k st]
    consider (err) "dfs f g k st = Inl RecursionError"
      | (same) "dfs f g k st = unbounded_dfs g k st" by blast
    then show ?thesis
    proof cases
      case err
      with False st show ?thesis by simp
    next
      case same
      show ?thesis
      proof (cases "unbounded_dfs g k st")
        case (Inl e)
        with same False st show ?thesis by simp
      next
        case (Inr p)
        obtain b st' where p: "p = (b, st')" by (cases p) blast
        from Cons.IH [of st'] Inr p same False st show ?thesis
          by (cases b) auto
      qed
    qed
  qed
qed

lemma dfs_all_enough_frames:
  assumes "\<forall>k\<in>set ks. \<exists>N. finite N \<and> closed_under (graph_edges g) N \<and> k \<in> N \<and> card N \<le> f"
  shows "dfs_all f g ks st \<noteq> Inl RecursionError"
  using assms
proof (induction ks arbitrary: st)
  case Nil
  show ?case by simp
next
  case (Cons k ks)
  obtain v r where st: "st = (v, r)" by (cases st) blast
  from Cons.prems have rest:
    "\<forall>k\<in>set ks. \<exists>N. finite N \<and> closed_under (graph_edges g) N \<and> k \<in> N \<and> card N \<le> f"
    by simp
  show ?case
  proof (cases "k \<in> v")
    case True
    with Cons.IH [OF rest, of st] st show ?thesis by simp
  next
    case False
    from Cons.prems obtain N where N: "finite N" "closed_under (graph_edges g) N" "k \<in> N"
      "card N \<le> f" by auto
    from N(1) have "card (N - v) \<le> card N" by (simp add: card_mono)
    with N(4) have "card (N - fst st) \<le> f" using st by simp
    from dfs_enough_frames(1) [OF N(1,2,3) _ this] False st
    have n: "dfs f g k st \<noteq> Inl RecursionError" by simp
    show ?thesis
    proof (cases "dfs f g k st")
      case (Inl e)
      with n False st show ?thesis by simp
    next
      case (Inr p)
      obtain b st' where p: "p = (b, st')" by (cases p) blast
      from Cons.IH [OF rest, of st'] Inr p False st show ?thesis
        by (cases b) auto
    qed
  qed
qed

lemma reach_closed: "closed_under E (E\<^sup>* `` {k})"
  unfolding closed_under_def by (blast intro: rtrancl_into_rtrancl)

lemma project_edges_finite: "finite (project_edges db project_id)"
  by (simp add: project_edges_def)

lemma has_cycle_agrees:
  "has_cycle frames db project_id = Inr (\<not> acyclic (project_edges db project_id))
     \<or> has_cycle frames db project_id = Inl RecursionError"
proof -
  from project_graph_built [of db project_id] obtain g where
    b: "build_graph (query_dependencies db project_id)
          (dict_of_tasks (\<lambda>t. []) (query_tasks db project_id)) = Inr g"
    and edges: "graph_edges g = project_edges db project_id"
    and out: "\<forall>x. x \<notin> set (map fst g) \<longrightarrow> graph_get g x = []"
    by blast
  have i0: "dfs_inv g ({}, {})"
    by (simp add: dfs_inv_def closed_under_def cycle_free_def)
  from out have "\<forall>x. x \<notin> {} \<and> x \<notin> set (map fst g) \<longrightarrow> graph_get g x = []" by simp
  from unbounded_dfs_all_correct [OF i0 this] edges
  have "unbounded_dfs_all g (map fst g) ({}, {}) = Inr (\<not> acyclic (project_edges db project_id))"
    by simp
  with dfs_all_agrees [of frames g "map fst g" "({}, {})"] b show ?thesis
    by (auto simp: has_cycle_def)
qed

lemma has_cycle_enough_frames:
  assumes "\<forall>t\<in>set (query_tasks db project_id).
             card ((project_edges db project_id)\<^sup>* `` {t_id t}) \<le> frames"
  shows "has_cycle frames db project_id = Inr (\<not> acyclic (project_edges db project_id))"
proof -
  from project_graph_built [of db project_id] obtain g where
    b: "build_graph (query_dependencies db project_id)
          (dict_of_tasks (\<lambda>t. []) (query_tasks db project_id)) = Inr g"
    and edges: "graph_edges g = project_edges db project_id"
    and keys: "set (map fst g) = t_id ` set (query_tasks db project_id)"
    by blast
  have "\<forall>k\<in>set (map fst g). \<exists>N. finite N \<and> closed_under (graph_edges g) N \<and> k \<in> N
          \<and> card N \<le> frames"
  proof
    fix k assume "k \<in> set (map fst g)"
    with keys assms have "card ((project_edges db project_id)\<^sup>* `` {k}) \<le> frames" by auto
    moreover have "finite ((project_edges db project_id)\<^sup>* `` {k})"
      by (simp add: project_edges_finite)
    moreover have "k \<in> (project_edges db project_id)\<^sup>* `` {k}" by blast
    ultimately show "\<exists>N. finite N \<and> closed_under (graph_edges g) N \<and> k \<in> N \<and> card N \<le> frames"
      unfolding edges using reach_closed by blast
  qed
  from dfs_all_enough_frames [OF this, of "({}, {})"] b
  have "has_cycle frames db project_id \<noteq> Inl RecursionError"
    by (simp add: has_cycle_def)
  with has_cycle_agrees [of frames db project_id] show ?thesis by blast
qed















lemma reach_subset: "E\<^sup>* `` {k} \<subseteq> insert k (Range E)"
  by (auto elim: rtranclE)

lemma reach_card:
  "card ((project_edges db project_id)\<^sup>* `` {k}) \<le> Suc (length (query_dependencies db project_id))"
proof -
  let ?E = "project_edges db project_id"
  have "card (?E\<^sup>* `` {k}) \<le> card (insert k (Range ?E))"
    by (rule card_mono) (simp_all add: project_edges_finite finite_Range reach_subset)
  also have "\<dots> \<le> Suc (card (Range ?E))" by (rule card_insert_le_m1) simp_all
  also have "card (Range ?E) \<le> card ?E"
    unfolding Range_snd by (rule card_image_le) (rule project_edges_finite)
  also have "card ?E \<le> length (query_dependencies db project_id)"
    unfolding project_edges_def by (metis card_length length_map edges_of_def)
  finally show ?thesis by simp
qed

section \<open>Cycle detection and the sort on cyclic graphs\<close>



text \<open>
  A project with fewer dependency rows than frames allowed: from no task more nodes
  can be reached than there are frames.
\<close>

lemma few_rows_reach:
  assumes "length (query_dependencies db project_id) < frames"
  shows "\<forall>t\<in>set (query_tasks db project_id).
           card ((project_edges db project_id)\<^sup>* `` {t_id t}) \<le> frames"
proof
  fix t :: Task
  from reach_card [of db project_id "t_id t"] assms
  show "card ((project_edges db project_id)\<^sup>* `` {t_id t}) \<le> frames" by linarith
qed

lemma ex_db_cyclic_rows: "length (query_dependencies ex_db_cyclic 1) = 2"
  by (simp add: query_dependencies_def ex_db_cyclic_def
      ex_session_def ex_task1_def ex_task2_def ex_task3_def ex_edge12_def ex_edge21_def)




text \<open>
  Claim C9.  \<^verbatim>\<open>has_cycle\<close> only reads the committed tables: two calls on the same
  stored tables with the same frames left have the same outcome, whatever the
  session's unflushed objects.  The boolean depends neither on the depth of the stack
  nor on the order of the rows: whenever two calls that see the same set of dependency
  rows of the project both return, they return the same boolean; and both do return,
  the same boolean, when each has more frames left than it sees dependency rows.
\<close>

theorem has_cycle_repeatable:
  "(store db' = store db \<longrightarrow> has_cycle frames db' project_id = has_cycle frames db project_id)
   \<and> (set (query_dependencies db' project_id) = set (query_dependencies db project_id)
        \<and> has_cycle frames db project_id = Inr b \<and> has_cycle frames' db' project_id = Inr b'
      \<longrightarrow> b' = b)
   \<and> (set (query_dependencies db' project_id) = set (query_dependencies db project_id)
        \<and> length (query_dependencies db project_id) < frames
        \<and> length (query_dependencies db' project_id) < frames'
      \<longrightarrow> (\<exists>b. has_cycle frames db project_id = Inr b \<and> has_cycle frames' db' project_id = Inr b))"
proof (intro conjI impI)
  assume "store db' = store db"
  then show "has_cycle frames db' project_id = has_cycle frames db project_id"
    by (simp add: has_cycle_def query_tasks_def query_dependencies_def)
next
  assume a: "set (query_dependencies db' project_id) = set (query_dependencies db project_id)
        \<and> has_cycle frames db project_id = Inr b \<and> has_cycle frames' db' project_id = Inr b'"
  then have "project_edges db' project_id = project_edges db project_id"
    by (simp add: project_edges_def edges_of_def)
  with a has_cycle_agrees [of frames db project_id] has_cycle_agrees [of frames' db' project_id]
  show "b' = b" by auto
next
  assume a: "set (query_dependencies db' project_id) = set (query_dependencies db project_id)
        \<and> length (query_dependencies db project_id) < frames
        \<and> length (query_dependencies db' project_id) < frames'"
  then have e: "project_edges db' project_id = project_edges db project_id"
    by (simp add: project_edges_def edges_of_def)
  from a have "has_cycle frames db project_id = Inr (\<not> acyclic (project_edges db project_id))"
    by (intro has_cycle_enough_frames few_rows_reach) simp
  moreover from a
  have "has_cycle frames' db' project_id = Inr (\<not> acyclic (project_edges db' project_id))"
    by (intro has_cycle_enough_frames few_rows_reach) simp
  ultimately show "\<exists>b. has_cycle frames db project_id = Inr b
                      \<and> has_cycle frames' db' project_id = Inr b"
    using e by simp
qed

lemma ex_db_cyclic_permuted_rows: "length (query_dependencies ex_db_cyclic_permuted 1) = 2"
  by (simp add: query_dependencies_def ex_db_cyclic_permuted_def
      ex_session_def ex_task1_def ex_task2_def ex_task3_def ex_edge12_def ex_edge21_def)

theorem has_cycle_repeatable_witness:
  "store (db_add_dependency ex_edge12 ex_db_cyclic) = store ex_db_cyclic
   \<and> has_cycle 1000 (db_add_dependency ex_edge12 ex_db_cyclic) 1 = has_cycle 1000 ex_db_cyclic 1
   \<and> set (query_dependencies ex_db_cyclic_permuted 1) = set (query_dependencies ex_db_cyclic 1)
   \<and> length (query_dependencies ex_db_cyclic 1) < 1000
   \<and> length (query_dependencies ex_db_cyclic_permuted 1) < 3
   \<and> has_cycle 1000 ex_db_cyclic 1 = Inr True
   \<and> has_cycle 3 ex_db_cyclic_permuted 1 = Inr True"
proof -
  have st: "store (db_add_dependency ex_edge12 ex_db_cyclic) = store ex_db_cyclic"
    by (simp add: db_add_dependency_def)
  have s: "set (query_dependencies ex_db_cyclic_permuted 1)
             = set (query_dependencies ex_db_cyclic 1)"
    by (auto simp: query_dependencies_def ex_db_cyclic_def ex_db_cyclic_permuted_def
        ex_session_def ex_task1_def ex_task2_def ex_task3_def ex_edge12_def ex_edge21_def)
  have r: "length (query_dependencies ex_db_cyclic 1) < 1000"
    "length (query_dependencies ex_db_cyclic_permuted 1) < 3"
    by (simp_all add: ex_db_cyclic_rows ex_db_cyclic_permuted_rows)
  have t: "has_cycle 1000 ex_db_cyclic 1 = Inr True" by code_simp
  from has_cycle_repeatable [of ex_db_cyclic_permuted ex_db_cyclic 1000 1 True 3 True] s r t
  have p: "has_cycle 3 ex_db_cyclic_permuted 1 = Inr True" by auto
  from has_cycle_repeatable [of "db_add_dependency ex_edge12 ex_db_cyclic" ex_db_cyclic 1000 1] st
  have "has_cycle 1000 (db_add_dependency ex_edge12 ex_db_cyclic) 1
          = has_cycle 1000 ex_db_cyclic 1" by blast
  with st s r t p show ?thesis by blast
qed






subsection \<open>Inserting a dependency\<close>

text \<open>
  Whenever both tasks exist in one project, the new row is in the committed table
  after the call, whatever the outcome: success, the cycle error, or the
  \<^verbatim>\<open>RecursionError\<close> of the cycle check.
\<close>

lemma create_dependency_commits_first:
  assumes "find (\<lambda>t. t_id t = predecessor_task_id dependency) (tasks_table (store db))
             = Some pred_task"
    and "find (\<lambda>t. t_id t = successor_task_id dependency) (tasks_table (store db))
             = Some succ_task"
    and "t_project_id pred_task = t_project_id succ_task"
  shows "task_dependencies_table (store (snd (create_dependency frames dependency db)))
           = task_dependencies_table (store db) @ new_dependencies db
             @ [\<lparr>predecessor_task_id = predecessor_task_id dependency,
                 successor_task_id = successor_task_id dependency\<rparr>]"
    and "fst (create_dependency frames dependency db) =
           (if acyclic (project_edges
                 (db_commit (db_add_dependency
                    \<lparr>predecessor_task_id = predecessor_task_id dependency,
                      successor_task_id = successor_task_id dependency\<rparr> db))
                 (t_project_id pred_task))
            then Inr ()
            else Inl (HTTPException 400 ''This dependency creates a cycle''))
         \<or> fst (create_dependency frames dependency db) = Inl RecursionError"
proof -
  let ?new = "\<lparr>predecessor_task_id = predecessor_task_id dependency,
                successor_task_id = successor_task_id dependency\<rparr>"
  let ?db = "db_commit (db_add_dependency ?new db)"
  from has_cycle_agrees [of frames ?db "t_project_id pred_task"]
  consider (ok) "has_cycle frames ?db (t_project_id pred_task)
                   = Inr (\<not> acyclic (project_edges ?db (t_project_id pred_task)))"
    | (err) "has_cycle frames ?db (t_project_id pred_task) = Inl RecursionError" by blast
  then have
    "task_dependencies_table (store (snd (create_dependency frames dependency db)))
       = task_dependencies_table (store db) @ new_dependencies db @ [?new]
     \<and> (fst (create_dependency frames dependency db) =
           (if acyclic (project_edges ?db (t_project_id pred_task))
            then Inr ()
            else Inl (HTTPException 400 ''This dependency creates a cycle''))
         \<or> fst (create_dependency frames dependency db) = Inl RecursionError)"
  proof cases
    case ok
    with assms show ?thesis
      by (simp add: create_dependency_def Let_def db_commit_def
          db_add_dependency_def db_rollback_def split: bool.splits)
  next
    case err
    with assms show ?thesis
      by (simp add: create_dependency_def Let_def db_commit_def
          db_add_dependency_def db_rollback_def)
  qed
  then show
    "task_dependencies_table (store (snd (create_dependency frames dependency db)))
       = task_dependencies_table (store db) @ new_dependencies db @ [?new]"
    and "fst (create_dependency frames dependency db) =
           (if acyclic (project_edges ?db (t_project_id pred_task))
            then Inr ()
            else Inl (HTTPException 400 ''This dependency creates a cycle''))
         \<or> fst (create_dependency frames dependency db) = Inl RecursionError"
    by blast+
qed

lemma ex_db_inserted_cycle:
  assumes "2 \<le> frames"
  shows "has_cycle frames (ex_session [ex_task1, ex_task2] [ex_edge12, ex_edge21] [ex_employee]) 1
           = Inr True"
proof -
  let ?db = "ex_session [ex_task1, ex_task2] [ex_edge12, ex_edge21] [ex_employee]"
  have e: "project_edges ?db 1 = {(1, 2), (2, 1)}"
    by (simp add: project_edges_def edges_of_def query_dependencies_def
        ex_session_def ex_task1_def ex_task2_def ex_edge12_def ex_edge21_def)
  have ts: "t_id ` set (query_tasks ?db 1) = {1, 2}"
    by (simp add: query_tasks_def ex_session_def ex_task1_def ex_task2_def)
  have "card ((project_edges ?db 1)\<^sup>* `` {k}) \<le> frames" if "k \<in> {1, 2}" for k
  proof -
    from that have "insert k (Range (project_edges ?db 1)) = {1, 2}"
      unfolding e by auto
    with reach_subset [of "project_edges ?db 1" k]
    have "(project_edges ?db 1)\<^sup>* `` {k} \<subseteq> {1, 2}" by simp
    then have "card ((project_edges ?db 1)\<^sup>* `` {k}) \<le> card {1::int, 2}"
      by (intro card_mono) simp_all
    with assms show ?thesis by simp
  qed
  with ts have "\<forall>t\<in>set (query_tasks ?db 1).
                  card ((project_edges ?db 1)\<^sup>* `` {t_id t}) \<le> frames"
    by blast
  then have "has_cycle frames ?db 1 = Inr (\<not> acyclic (project_edges ?db 1))"
    by (rule has_cycle_enough_frames)
  moreover have "\<not> acyclic (project_edges ?db 1)"
  proof -
    have "((1::int), 1) \<in> {(1, 2), (2, 1)}\<^sup>+"
      by (rule trancl_into_trancl [of _ 2]) auto
    then show ?thesis unfolding e acyclic_def by blast
  qed
  ultimately show ?thesis by simp
qed

text \<open>
  Claim C4 at a failing input.  With the edge 1 \<rightarrow> 2 stored, inserting 2 \<rightarrow> 1 is
  answered with the cycle error as soon as the two nested calls that the search needs
  are allowed, but the new edge has been committed before the check and the rollback
  does not remove it.
\<close>
theorem create_dependency_cycle_edge_stays:
  "create_dependency (2 + frames) ex_edge21 ex_db
     = (Inl (HTTPException 400 ''This dependency creates a cycle''),
        ex_session [ex_task1, ex_task2] [ex_edge12, ex_edge21] [ex_employee])
   \<and> task_dependencies_table (store ex_db) = [ex_edge12]"
proof -
  have c: "db_commit (db_add_dependency ex_edge21 ex_db)
             = ex_session [ex_task1, ex_task2] [ex_edge12, ex_edge21] [ex_employee]"
    by (simp add: db_commit_def db_add_dependency_def ex_db_def ex_session_def)
  have r: "db_rollback (ex_session [ex_task1, ex_task2] [ex_edge12, ex_edge21] [ex_employee])
             = ex_session [ex_task1, ex_task2] [ex_edge12, ex_edge21] [ex_employee]"
    by (simp add: db_rollback_def ex_session_def)
  have n: "\<lparr>predecessor_task_id = predecessor_task_id ex_edge21,
             successor_task_id = successor_task_id ex_edge21\<rparr> = ex_edge21"
    by (simp add: ex_edge21_def)
  have f: "find (\<lambda>t. t_id t = predecessor_task_id ex_edge21) (tasks_table (store ex_db))
             = Some ex_task2"
    "find (\<lambda>t. t_id t = successor_task_id ex_edge21) (tasks_table (store ex_db))
             = Some ex_task1"
    "t_project_id ex_task2 = 1" "t_project_id ex_task1 = 1"
    by (simp_all add: ex_db_def ex_session_def ex_edge21_def ex_task1_def ex_task2_def)
  have h: "has_cycle (2 + frames)
             (ex_session [ex_task1, ex_task2] [ex_edge12, ex_edge21] [ex_employee]) 1 = Inr True"
    by (rule ex_db_inserted_cycle) simp
  have "create_dependency (2 + frames) ex_edge21 ex_db
     = (Inl (HTTPException 400 ''This dependency creates a cycle''),
        ex_session [ex_task1, ex_task2] [ex_edge12, ex_edge21] [ex_employee])"
    unfolding create_dependency_def Let_def f n c
    using h by (simp add: f r)
  moreover have "task_dependencies_table (store ex_db) = [ex_edge12]"
    by (simp add: ex_db_def ex_session_def)
  ultimately show ?thesis by blast
qed

end
